theory Spec2Isabelle
  imports Main
begin

section \<open>Integers and polynomials of the NTL interface\<close>

text \<open>
  The source computes on C++ \<open>long\<close> values and on NTL's \<open>ZZX\<close> (polynomials with
  arbitrary-precision integer coefficients).  A \<open>long\<close> is modelled as an \<open>int\<close>: the
  source assumes throughout that \<open>p^e\<close> is a single-precision modulus (it is handed to
  \<open>PowerMod\<close>), so no operation below leaves the range of a \<open>long\<close>.  Division of two
  \<open>long\<close>s truncates towards zero.
\<close>

definition cdiv :: "int \<Rightarrow> int \<Rightarrow> int" where
  "cdiv a b = sgn a * sgn b * (\<bar>a\<bar> div \<bar>b\<bar>)"

text \<open>\<open>power_long(p, e)\<close> of NTL: the integer \<open>p^e\<close>.\<close>

definition power_long :: "int \<Rightarrow> int \<Rightarrow> int" where
  "power_long p e = p ^ nat e"

text \<open>\<open>PowerMod(a, e, n)\<close> of NTL: \<open>a^e mod n\<close> in \<open>[0, n)\<close>, for \<open>0 \<le> a < n\<close>.\<close>

definition PowerMod :: "int \<Rightarrow> int \<Rightarrow> int \<Rightarrow> int" where
  "PowerMod a e n = (a ^ nat e) mod n"

text \<open>
  A \<open>ZZX\<close> is its coefficient vector, lowest degree first.  NTL keeps the vector
  normalised (no leading zero coefficient); \<open>strip\<close> is that normalisation, \<open>deg\<close> the
  degree (\<open>-1\<close> for the zero polynomial), and \<open>SetCoeff(f, i)\<close> sets the coefficient of
  \<open>X^i\<close> to one, extending the vector when needed.
\<close>

type_synonym zzx = "int list"

definition strip :: "zzx \<Rightarrow> zzx" where
  "strip f = rev (dropWhile (\<lambda>c. c = 0) (rev f))"

definition deg :: "zzx \<Rightarrow> int" where
  "deg f = int (length (strip f)) - 1"

definition LeadCoeff :: "zzx \<Rightarrow> int" where
  "LeadCoeff f = (if strip f = [] then 0 else last (strip f))"

definition SetCoeff :: "zzx \<Rightarrow> int \<Rightarrow> zzx" where
  "SetCoeff f i = strip ((f @ replicate (Suc (nat i) - length f) 0)[nat i := 1])"

fun eval :: "zzx \<Rightarrow> int \<Rightarrow> int" where
  "eval [] z = 0"
| "eval (c # cs) z = c + z * eval cs z"

fun padd :: "zzx \<Rightarrow> zzx \<Rightarrow> zzx" where
  "padd [] g = g"
| "padd f [] = f"
| "padd (a # f) (b # g) = (a + b) # padd f g"

definition smult :: "int \<Rightarrow> zzx \<Rightarrow> zzx" where
  "smult c f = map (\<lambda>a. c * a) f"

text \<open>Multiplication by the linear factor \<open>X - a\<close>.\<close>

definition pmul_lin :: "zzx \<Rightarrow> int \<Rightarrow> zzx" where
  "pmul_lin f a = padd (0 # f) (smult (- a) f)"

definition pmod :: "zzx \<Rightarrow> int \<Rightarrow> zzx" where
  "pmod f m = map (\<lambda>a. a mod m) f"

section \<open>The interpolation collaborator\<close>

text \<open>
  Modelled from the spec: the parts of \<open>interpolateMod\<close>, which \<open>extractDigits.cpp\<close> calls
  and does not define.  The specification asks for a polynomial of degree at most \<open>p - 1\<close>
  through the \<open>p\<close> points \<open>(x[j], y[j])\<close> modulo \<open>p^e\<close>, computed with precision-aware
  arithmetic that is valid at every precision below \<open>e\<close>.  The model works one digit of
  precision at a time: it interpolates modulo \<open>p\<close> (\<open>interp_p\<close>, Newton's scheme: each new
  point adds a multiple of the nodal polynomial of the points already met), subtracts the
  values of that polynomial from the ordinates, divides them by \<open>p\<close>, and repeats \<open>e\<close>
  times (\<open>lift\<close>); the result is the sum of the \<open>e\<close> layers, layer \<open>i\<close> scaled by \<open>p^i\<close>.
  The inverse modulo \<open>p\<close> (\<open>inv_mod\<close>) is a Bezout coefficient of the extended Euclidean
  algorithm.
\<close>

definition inv_mod :: "int \<Rightarrow> int \<Rightarrow> int" where
  "inv_mod a p = fst (bezw (nat (a mod p)) (nat p)) mod p"

fun interp_p :: "(int \<times> int) list \<Rightarrow> int \<Rightarrow> zzx \<times> zzx" where
  "interp_p [] p = ([], [1])"
| "interp_p ((x, y) # pts) p =
     (let (q, nodal) = interp_p pts p;
          c = ((y - eval q x) * inv_mod (eval nodal x) p) mod p
      in (pmod (padd q (smult c nodal)) p, pmod (pmul_lin nodal x) p))"

fun lift :: "int list \<Rightarrow> int list \<Rightarrow> int \<Rightarrow> nat \<Rightarrow> zzx" where
  "lift xs ys p 0 = []"
| "lift xs ys p (Suc k) =
     (let q = fst (interp_p (zip xs ys) p);
          ys' = map2 (\<lambda>x y. ((y - eval q x) mod p ^ Suc k) div p) xs ys
      in padd q (smult p (lift xs ys' p k)))"

text \<open>
  Modelled from the spec: \<open>interpolateMod(poly, x, y, p, e)\<close>, the value it stores in
  \<open>poly\<close>: a normalised polynomial of degree below the number of points that takes the
  value \<open>y[j]\<close> at \<open>x[j]\<close> modulo \<open>p^e\<close>.
\<close>

definition interpolateMod :: "int list \<Rightarrow> int list \<Rightarrow> int \<Rightarrow> int \<Rightarrow> zzx" where
  "interpolateMod xs ys p e = strip (lift xs ys p (nat e))"

section \<open>buildDigitPolynomial\<close>

text \<open>
  The ways in which a call ends other than by returning: the failed \<open>assert\<close> of line 95,
  the \<open>length_error\<close> of a vector asked for a negative size, and the use of a reference
  whose object is gone (undefined behaviour in the source).
\<close>

datatype error = AssertionFailed | LengthError | DanglingReference

text \<open>
  The two \<open>while\<close> loops that fold \<open>y[j]\<close> towards zero.  They are written as the source
  has them; a run that never leaves a loop is the value \<open>None\<close>.
\<close>

partial_function (option) fold_above :: "int \<Rightarrow> int \<Rightarrow> int option" where
  "fold_above y p2e = (if y > cdiv p2e 2 then fold_above (y - p2e) p2e else Some y)"

partial_function (option) fold_below :: "int \<Rightarrow> int \<Rightarrow> int option" where
  "fold_below y p2e = (if y < - (cdiv p2e 2) then fold_below (y + p2e) p2e else Some y)"

declare fold_above.simps [code]
declare fold_below.simps [code]

text \<open>One iteration of the table loop: the abscissa \<open>x[j]\<close> and the ordinate \<open>y[j]\<close>.\<close>

definition table_x :: "int \<Rightarrow> nat \<Rightarrow> int" where
  "table_x p j = - (cdiv p 2) + int j"

definition table_y :: "int \<Rightarrow> int \<Rightarrow> nat \<Rightarrow> int option" where
  "table_y p p2e j =
     (let z = table_x p j;
          y0 = z - PowerMod (if z < 0 then z + p2e else z) p p2e
      in case fold_above y0 p2e of
           None \<Rightarrow> None
         | Some y1 \<Rightarrow> fold_below y1 p2e)"

definition digit_table :: "int \<Rightarrow> int \<Rightarrow> (int list \<times> int list) option" where
  "digit_table p e =
     (let p2e = power_long p e in
      case those (map (table_y p p2e) [0..<nat p]) of
        None \<Rightarrow> None
      | Some y \<Rightarrow> Some (map (table_x p) [0..<nat p], y))"

text \<open>
  \<open>buildDigitPolynomial(result, p, e)\<close>: \<open>result\<close> is passed by reference, so the model
  takes its value on entry and returns its value on exit.  \<open>None\<close> is a run that does
  not return, \<open>Inl AssertionFailed\<close> the failed \<open>assert\<close>.
\<close>

definition buildDigitPolynomial :: "zzx \<Rightarrow> int \<Rightarrow> int \<Rightarrow> (error + zzx) option" where
  "buildDigitPolynomial result p e =
     (if p < 2 \<or> e \<le> 1 then Some (Inr result)
      else case digit_table p e of
        None \<Rightarrow> None
      | Some (x, y) \<Rightarrow>
          (let result' = interpolateMod x y p e
           in if deg result' < p then Some (Inr (SetCoeff result' p))
              else Some (Inl AssertionFailed)))"

section \<open>extractDigits\<close>

text \<open>
  The ciphertext class \<open>Ctxt\<close> and \<open>polyEval\<close> are collaborators that
  \<open>extractDigits.cpp\<close> only calls.  The model takes them as a record of operations on an
  arbitrary ciphertext type \<open>'c\<close>: what \<open>extractDigits\<close> does with them is then stated for
  every implementation of the collaborators.
\<close>

record 'c ctxt_ops =
  effectiveR :: "'c \<Rightarrow> int"
  getP :: "'c \<Rightarrow> int"
  newCtxt :: "'c \<Rightarrow> 'c"
  square :: "'c \<Rightarrow> 'c"
  cube :: "'c \<Rightarrow> 'c"
  polyEval :: "zzx \<Rightarrow> 'c \<Rightarrow> 'c"
  minusEq :: "'c \<Rightarrow> 'c \<Rightarrow> 'c"
  divideByP :: "'c \<Rightarrow> 'c"

text \<open>
  \<open>getP c\<close> is \<open>c.getContext().zMStar.getP()\<close>, \<open>newCtxt c\<close> the fresh ciphertext
  \<open>Ctxt(c.getPubKey(), c.getPtxtSpace())\<close>, \<open>minusEq a b\<close> the value of \<open>a\<close> after
  \<open>a -= b\<close>, and \<open>polyEval f x\<close> the value that \<open>polyEval(ret, f, x)\<close> stores in \<open>ret\<close>.

  The parameter \<open>c\<close> is a \<open>const\<close> reference and \<open>digits\<close> a reference to the caller's
  vector, so the object behind \<open>c\<close> is either an object outside the vector or one of its
  elements.  \<open>Outside v\<close> is a reference to an object with value \<open>v\<close> that is no element of
  \<open>digits\<close>, \<open>Elem k\<close> a reference to \<open>digits[k]\<close>.
\<close>

datatype 'c cref = Outside 'c | Elem nat

text \<open>
  The state of a call: the reference \<open>c\<close>, the caller's vector \<open>digits\<close>, the locals \<open>w\<close> and
  \<open>tmp\<close>, and a ghost log of the calls made to \<open>buildDigitPolynomial\<close> and \<open>polyEval\<close>.
\<close>

datatype call = BuildCall int int | PolyEvalCall zzx

record 'c ext_state =
  c_at :: "'c cref"
  digits :: "'c list"
  w :: "'c list"
  tmp :: 'c
  calls :: "call list"

text \<open>The value read through \<open>c\<close> in a state.\<close>

definition c_val :: "'c ext_state \<Rightarrow> 'c" where
  "c_val s = (case c_at s of Outside v \<Rightarrow> v | Elem k \<Rightarrow> digits s ! k)"

text \<open>Lines 54 to 56: \<open>w[j]\<close> is replaced by ``in spirit'' its \<open>p\<close>-th power.\<close>

definition pth_power :: "'c ctxt_ops \<Rightarrow> int \<Rightarrow> zzx \<Rightarrow> 'c \<Rightarrow> 'c" where
  "pth_power ops p x2p a =
     (if p = 2 then square ops a
      else if p = 3 then cube ops a
      else polyEval ops x2p a)"

definition power_step :: "'c ctxt_ops \<Rightarrow> int \<Rightarrow> zzx \<Rightarrow> nat \<Rightarrow> 'c ext_state \<Rightarrow> 'c ext_state" where
  "power_step ops p x2p j s =
     s\<lparr>w := (w s)[j := pth_power ops p x2p (w s ! j)],
       calls := (if p = 2 \<or> p = 3 then calls s else calls s @ [PolyEvalCall x2p])\<rparr>"

text \<open>Body of the inner loop (lines 53 to 59).\<close>

definition inner_body :: "'c ctxt_ops \<Rightarrow> int \<Rightarrow> zzx \<Rightarrow> 'c ext_state \<Rightarrow> nat \<Rightarrow> 'c ext_state" where
  "inner_body ops p x2p s j =
     (let s1 = power_step ops p x2p j s;
          s2 = s1\<lparr>tmp := minusEq ops (tmp s1) (w s1 ! j)\<rparr>
      in s2\<lparr>tmp := divideByP ops (tmp s2)\<rparr>)"

definition inner_loop :: "'c ctxt_ops \<Rightarrow> int \<Rightarrow> zzx \<Rightarrow> nat \<Rightarrow> 'c ext_state \<Rightarrow> 'c ext_state" where
  "inner_loop ops p x2p i s = foldl (inner_body ops p x2p) s [0..<i]"

text \<open>Body of the outer loop (lines 51 to 62).\<close>

definition outer_body :: "'c ctxt_ops \<Rightarrow> int \<Rightarrow> zzx \<Rightarrow> bool \<Rightarrow> 'c ext_state \<Rightarrow> nat \<Rightarrow> 'c ext_state" where
  "outer_body ops p x2p shortCut s i =
     (let s1 = s\<lparr>tmp := c_val s\<rparr>;
          s2 = inner_loop ops p x2p i s1;
          s3 = s2\<lparr>w := (w s2)[i := tmp s2]\<rparr>
      in if shortCut then s3\<lparr>digits := (digits s3)[i := tmp s3]\<rparr> else s3)"

definition outer_loop :: "'c ctxt_ops \<Rightarrow> int \<Rightarrow> zzx \<Rightarrow> bool \<Rightarrow> nat \<Rightarrow> 'c ext_state \<Rightarrow> 'c ext_state" where
  "outer_loop ops p x2p shortCut r s = foldl (outer_body ops p x2p shortCut) s [0..<r]"

text \<open>The final copy (line 65).\<close>

definition copy_loop :: "nat \<Rightarrow> 'c ext_state \<Rightarrow> 'c ext_state" where
  "copy_loop r s = foldl (\<lambda>s i. s\<lparr>digits := (digits s)[i := w s ! i]\<rparr>) s [0..<r]"

text \<open>\<open>digits.resize(r, tmp)\<close>: cut to \<open>r\<close> elements, or filled up with copies of \<open>tmp\<close>.\<close>

definition resize :: "'c list \<Rightarrow> nat \<Rightarrow> 'c \<Rightarrow> 'c list" where
  "resize v n a = take n v @ replicate (n - length v) a"

text \<open>The digit count after line 39.\<close>

definition clamp_r :: "'c ctxt_ops \<Rightarrow> 'c \<Rightarrow> int \<Rightarrow> int" where
  "clamp_r ops c r = (let rr = effectiveR ops c in if r \<le> 0 \<or> r > rr then rr else r)"

text \<open>
  The value behind \<open>c\<close> on entry, where \<open>digits0\<close> is the vector on entry.  A reference to
  an element that the vector does not have refers to no object.
\<close>

definition entry_value :: "'c list \<Rightarrow> 'c cref \<Rightarrow> 'c option" where
  "entry_value digits0 c =
     (case c of
        Outside v \<Rightarrow> Some v
      | Elem k \<Rightarrow> if k < length digits0 then Some (digits0 ! k) else None)"

text \<open>
  What \<open>digits.resize(n, tmp)\<close> does to the reference \<open>c\<close>.  \<open>spare\<close> is the unused capacity
  of the vector on entry (\<open>capacity() - size()\<close>).  A vector that grows beyond its capacity
  moves its elements, and a vector that shrinks destroys the elements from index \<open>n\<close> on:
  either way a reference to such an element refers to no object afterwards.
\<close>

definition invalidated :: "'c cref \<Rightarrow> 'c list \<Rightarrow> nat \<Rightarrow> nat \<Rightarrow> bool" where
  "invalidated c digits0 spare n =
     (case c of
        Outside v \<Rightarrow> False
      | Elem k \<Rightarrow> length digits0 + spare < n \<or> n \<le> k)"

text \<open>
  \<open>extractDigits(digits, c, r, shortCut)\<close>.  \<open>digits0\<close> and \<open>spare\<close> are the contents and the
  unused capacity of \<open>digits\<close> on entry.  Lines 38 to 47 read \<open>c\<close> before anything is
  written.  A negative size handed to \<open>resize\<close> or to the constructor of \<open>w\<close> converts to a
  huge unsigned value and the vector throws \<open>length_error\<close>.  \<open>x2p\<close> is default-constructed
  (the zero polynomial) and handed to \<open>buildDigitPolynomial\<close> when \<open>p > 3\<close> (lines 42 to
  45, \<open>build_x2p\<close>).  After the \<open>resize\<close> of line 48 the next read of \<open>c\<close> is the
  \<open>tmp = c\<close> of line 51, in the first iteration of the outer loop, which exists when
  \<open>r > 0\<close>.
\<close>

definition build_x2p :: "int \<Rightarrow> int \<Rightarrow> (error + zzx) option" where
  "build_x2p p r = (if p > 3 then buildDigitPolynomial [] p r else Some (Inr []))"

definition extractDigits ::
  "'c ctxt_ops \<Rightarrow> 'c list \<Rightarrow> nat \<Rightarrow> 'c cref \<Rightarrow> int \<Rightarrow> bool \<Rightarrow> (error + 'c ext_state) option" where
  "extractDigits ops digits0 spare c r shortCut =
     (case entry_value digits0 c of
        None \<Rightarrow> Some (Inl DanglingReference)
      | Some c0 \<Rightarrow>
         (let r = clamp_r ops c0 r;
              p = getP ops c0;
              log = (if p > 3 then [BuildCall p r] else [])
          in case build_x2p p r of
               None \<Rightarrow> None
             | Some (Inl err) \<Rightarrow> Some (Inl err)
             | Some (Inr x2p) \<Rightarrow>
                 if r < 0 then Some (Inl LengthError)
                 else if 0 < r \<and> invalidated c digits0 spare (nat r)
                   then Some (Inl DanglingReference)
                 else
                   (let tmp0 = newCtxt ops c0;
                        s0 = \<lparr>c_at = c, digits = resize digits0 (nat r) tmp0,
                              w = replicate (nat r) tmp0, tmp = tmp0, calls = log\<rparr>;
                        s1 = outer_loop ops p x2p shortCut (nat r) s0
                    in Some (Inr (if \<not> shortCut then copy_loop (nat r) s1 else s1)))))"

subsection \<open>Closed forms of the loops\<close>

text \<open>
  The inner loop in closed form.  After \<open>i\<close> iterations the first \<open>i\<close> entries of \<open>w\<close> have
  been powered once, and \<open>tmp\<close> has been peeled \<open>i\<close> times.
\<close>

definition powered :: "'c ctxt_ops \<Rightarrow> int \<Rightarrow> zzx \<Rightarrow> nat \<Rightarrow> 'c list \<Rightarrow> 'c list" where
  "powered ops p x2p i ws = map (pth_power ops p x2p) (take i ws) @ drop i ws"

fun peeled :: "'c ctxt_ops \<Rightarrow> int \<Rightarrow> zzx \<Rightarrow> 'c list \<Rightarrow> 'c \<Rightarrow> nat \<Rightarrow> 'c" where
  "peeled ops p x2p ws t 0 = t"
| "peeled ops p x2p ws t (Suc j) =
     divideByP ops (minusEq ops (peeled ops p x2p ws t j) (pth_power ops p x2p (ws ! j)))"

definition evals :: "int \<Rightarrow> zzx \<Rightarrow> nat \<Rightarrow> call list" where
  "evals p x2p i = (if p = 2 \<or> p = 3 then [] else replicate i (PolyEvalCall x2p))"

text \<open>
  The state on entry to the outer loop (lines 47 to 49), in a call whose \<open>c\<close> is an object
  outside the vector \<open>digits\<close>.
\<close>

definition init_state :: "'c ctxt_ops \<Rightarrow> 'c list \<Rightarrow> 'c \<Rightarrow> int \<Rightarrow> 'c ext_state" where
  "init_state ops digits0 c r =
     \<lparr>c_at = Outside c, digits = resize digits0 (nat (clamp_r ops c r)) (newCtxt ops c),
      w = replicate (nat (clamp_r ops c r)) (newCtxt ops c), tmp = newCtxt ops c,
      calls = (if getP ops c > 3 then [BuildCall (getP ops c) (clamp_r ops c r)] else [])\<rparr>"

section \<open>Primes\<close>

text \<open>The plaintext prime \<open>p\<close> of the context: no divisor strictly between one and itself.\<close>

definition is_prime :: "int \<Rightarrow> bool" where
  "is_prime p = (2 \<le> p \<and> (\<forall>d\<in>{2..<p}. \<not> d dvd p))"

section \<open>A plaintext simulation of the ciphertext\<close>

text \<open>
  Modelled from the spec: a ciphertext of the class \<open>Ctxt\<close>, which is not defined in
  \<open>extractDigits.cpp\<close>, as far as one slot's plaintext goes.  A ciphertext of the
  simulation holds the integer of one slot, reduced modulo its plaintext modulus \<open>p^k\<close>,
  and the exponent \<open>k\<close> (its effective digit count).  Levels and noise are not simulated.
\<close>

record sim_ctxt =
  slot :: int
  ptxtExp :: nat

definition ptxtSpace :: "int \<Rightarrow> sim_ctxt \<Rightarrow> int" where
  "ptxtSpace p a = p ^ ptxtExp a"

text \<open>
  Modelled from the spec: the operations of \<open>Ctxt\<close> and \<open>polyEval\<close> on a simulated
  ciphertext.  Squaring, cubing, polynomial evaluation and subtraction act on the slot
  modulo the plaintext modulus (in \<open>extractDigits\<close> the two operands of a subtraction
  always have the same one); ``divide all slots by \<open>p\<close>'' divides the slot by \<open>p\<close> and
  leaves the plaintext modulus \<open>p^(k-1)\<close>; a fresh ciphertext is empty.
\<close>

definition sim_ops :: "int \<Rightarrow> sim_ctxt ctxt_ops" where
  "sim_ops p =
     \<lparr>effectiveR = (\<lambda>a. int (ptxtExp a)),
      getP = (\<lambda>a. p),
      newCtxt = (\<lambda>a. \<lparr>slot = 0, ptxtExp = ptxtExp a\<rparr>),
      square = (\<lambda>a. a\<lparr>slot := (slot a * slot a) mod ptxtSpace p a\<rparr>),
      cube = (\<lambda>a. a\<lparr>slot := (slot a * slot a * slot a) mod ptxtSpace p a\<rparr>),
      polyEval = (\<lambda>f a. a\<lparr>slot := eval f (slot a) mod ptxtSpace p a\<rparr>),
      minusEq = (\<lambda>a b. a\<lparr>slot := (slot a - slot b) mod ptxtSpace p a\<rparr>),
      divideByP = (\<lambda>a. \<lparr>slot = (slot a div p) mod p ^ (ptxtExp a - 1),
                         ptxtExp = ptxtExp a - 1\<rparr>)\<rparr>"

text \<open>
  Modelled from the spec: encryption of the integer \<open>z\<close> in a slot with plaintext modulus
  \<open>p^k\<close>, and decryption of the slot.
\<close>

definition encrypt :: "int \<Rightarrow> nat \<Rightarrow> int \<Rightarrow> sim_ctxt" where
  "encrypt p k z = \<lparr>slot = z mod p ^ k, ptxtExp = k\<rparr>"

definition decrypt :: "sim_ctxt \<Rightarrow> int" where
  "decrypt a = slot a"

section \<open>Base-\<open>p\<close> digits\<close>

text \<open>
  The digits that the extraction produces.  The \<open>p\<close>-th-power operation keeps the residues
  \<open>0\<close> and \<open>1\<close> for \<open>p = 2\<close> and the centered residues \<open>- \<lfloor>p/2\<rfloor>, \<dots>, p - 1 - \<lfloor>p/2\<rfloor>\<close> for an odd
  \<open>p\<close>; \<open>drep p z\<close> is the one congruent to \<open>z\<close>.  \<open>bdigit p z j\<close> is digit \<open>j\<close> of the base-\<open>p\<close>
  expansion of \<open>z\<close> with digits from that set, \<open>dtail p z j\<close> what is left of \<open>z\<close> after \<open>j\<close>
  digits.
\<close>

definition drep :: "int \<Rightarrow> int \<Rightarrow> int" where
  "drep p z = (if p = 2 then z mod 2 else (z + p div 2) mod p - p div 2)"

fun dtail :: "int \<Rightarrow> int \<Rightarrow> nat \<Rightarrow> int" where
  "dtail p z 0 = z"
| "dtail p z (Suc j) = (dtail p z j - drep p (dtail p z j)) div p"

definition bdigit :: "int \<Rightarrow> int \<Rightarrow> nat \<Rightarrow> int" where
  "bdigit p z j = drep p (dtail p z j)"

text \<open>The digits of the specification: the ordinary base-\<open>p\<close> digits \<open>d0, d1, \<dots>\<close> of \<open>z\<close>.\<close>

definition base_digit :: "int \<Rightarrow> int \<Rightarrow> nat \<Rightarrow> int" where
  "base_digit p z j = (z div p ^ j) mod p"

section \<open>Polynomial arithmetic\<close>

lemma cdiv_nonneg [simp]: "0 \<le> a \<Longrightarrow> cdiv a 2 = a div 2"
  by (cases "a = 0") (simp_all add: cdiv_def)

lemma strip_append_nonzero: "a \<noteq> 0 \<Longrightarrow> strip (f @ [a]) = f @ [a]"
  by (simp add: strip_def)

lemma length_strip: "length (strip f) \<le> length f"
  by (simp add: strip_def length_dropWhile_le[of _ "rev f", simplified])

lemma eval_append: "eval (f @ g) z = eval f z + z ^ length f * eval g z"
  by (induction f) (simp_all add: algebra_simps)

lemma eval_zeros: "\<forall>a\<in>set f. a = 0 \<Longrightarrow> eval f z = 0"
  by (induction f) simp_all

lemma eval_strip [simp]: "eval (strip f) z = eval f z"
proof -
  have "f = strip f @ rev (takeWhile (\<lambda>c. c = 0) (rev f))"
    unfolding strip_def by (metis rev_append rev_rev_ident takeWhile_dropWhile_id)
  moreover have "eval (rev (takeWhile (\<lambda>c. c = 0) (rev f))) z = 0"
    by (rule eval_zeros) (auto dest: set_takeWhileD)
  ultimately show ?thesis
    by (metis add.right_neutral eval_append mult_zero_right)
qed

lemma length_padd [simp]: "length (padd f g) = max (length f) (length g)"
  by (induction f g rule: padd.induct) simp_all

lemma eval_padd [simp]: "eval (padd f g) z = eval f z + eval g z"
  by (induction f g rule: padd.induct) (simp_all add: algebra_simps)

lemma eval_smult [simp]: "eval (smult c f) z = c * eval f z"
  by (induction f) (simp_all add: smult_def algebra_simps)

lemma length_smult [simp]: "length (smult c f) = length f"
  by (simp add: smult_def)

lemma length_pmod [simp]: "length (pmod f m) = length f"
  by (simp add: pmod_def)

lemma eval_pmul_lin [simp]: "eval (pmul_lin f a) z = (z - a) * eval f z"
  by (simp add: pmul_lin_def algebra_simps)

lemma length_pmul_lin [simp]: "length (pmul_lin f a) = Suc (length f)"
  by (simp add: pmul_lin_def)

lemma length_interp_p:
  "length (snd (interp_p pts p)) = Suc (length pts) \<and> length (fst (interp_p pts p)) \<le> length pts"
  by (induction pts) (auto simp add: Let_def split: prod.splits)

lemma length_lift: "length (lift xs ys p k) \<le> min (length xs) (length ys)"
proof (induction k arbitrary: ys)
  case 0
  show ?case by simp
next
  case (Suc k)
  have "length (fst (interp_p (zip xs ys) p)) \<le> min (length xs) (length ys)"
    using length_interp_p[of "zip xs ys" p] by simp
  moreover have "length (lift xs (map2 (\<lambda>x y. ((y - eval (fst (interp_p (zip xs ys) p)) x) mod p ^ Suc k) div p) xs ys) p k)
      \<le> min (length xs) (length ys)"
    using Suc.IH[of "map2 (\<lambda>x y. ((y - eval (fst (interp_p (zip xs ys) p)) x) mod p ^ Suc k) div p) xs ys"]
    by simp
  ultimately show ?case by (simp add: Let_def)
qed

lemma deg_interpolateMod: "deg (interpolateMod xs ys p e) < int (length xs)"
proof -
  have "length (strip (strip (lift xs ys p (nat e)))) \<le> length xs"
    using length_strip[of "strip (lift xs ys p (nat e))"] length_strip[of "lift xs ys p (nat e)"]
      length_lift[of xs ys p "nat e"] by linarith
  then show ?thesis by (simp add: deg_def interpolateMod_def)
qed

lemma SetCoeff_above:
  assumes "length f \<le> n"
  shows "SetCoeff f (int n) = f @ replicate (n - length f) 0 @ [1]"
proof -
  have "f @ replicate (Suc n - length f) 0 = (f @ replicate (n - length f) 0) @ [0]"
    using assms by (simp add: Suc_diff_le replicate_append_same)
  moreover have "length (f @ replicate (n - length f) 0) = n"
    using assms by simp
  ultimately have "(f @ replicate (Suc n - length f) 0)[n := 1] = f @ replicate (n - length f) 0 @ [1]"
    by (metis append.assoc list_update_length)
  then show ?thesis
    using strip_append_nonzero[of 1 "f @ replicate (n - length f) 0"] by (simp add: SetCoeff_def)
qed

lemma deg_SetCoeff: "length f \<le> n \<Longrightarrow> deg (SetCoeff f (int n)) = int n"
  using strip_append_nonzero[of 1 "f @ replicate (n - length f) 0"]
  by (simp add: SetCoeff_above deg_def)

lemma LeadCoeff_SetCoeff: "length f \<le> n \<Longrightarrow> LeadCoeff (SetCoeff f (int n)) = 1"
  using strip_append_nonzero[of 1 "f @ replicate (n - length f) 0"]
  by (simp add: SetCoeff_above LeadCoeff_def)

lemma eval_SetCoeff:
  assumes "length f \<le> n"
  shows "eval (SetCoeff f (int n)) z = eval f z + z ^ n"
proof -
  have "z ^ length f * z ^ (n - length f) = z ^ n"
    using assms by (simp flip: power_add)
  then show ?thesis
    using assms by (simp add: SetCoeff_above eval_append eval_zeros)
qed

section \<open>The interpolation table and the assembled polynomial\<close>

lemma fold_above_returns:
  assumes "0 < m"
  shows "\<exists>y'. fold_above y m = Some y' \<and> y' \<le> m div 2 \<and> m dvd (y' - y) \<and> (y \<le> m div 2 \<longrightarrow> y' = y)"
proof (induction "nat (y - m div 2)" arbitrary: y rule: less_induct)
  case less
  show ?case
  proof (cases "y > m div 2")
    case False
    then show ?thesis using assms by (subst fold_above.simps) simp
  next
    case True
    then have "nat (y - m - m div 2) < nat (y - m div 2)" using assms by linarith
    from less[OF this] obtain y' where
      "fold_above (y - m) m = Some y'" "y' \<le> m div 2" "m dvd (y' - (y - m))" by blast
    moreover have "m dvd (y' - y)"
    proof -
      have "y' - y = (y' - (y - m)) - m" by simp
      then show ?thesis using \<open>m dvd (y' - (y - m))\<close> by (simp only: dvd_diff dvd_refl)
    qed
    ultimately show ?thesis using True assms by (subst fold_above.simps) simp
  qed
qed

lemma fold_below_returns:
  assumes "0 < m" and "y \<le> m div 2"
  shows "\<exists>y'. fold_below y m = Some y' \<and> - (m div 2) \<le> y' \<and> y' \<le> m div 2 \<and> m dvd (y' - y)"
  using assms(2)
proof (induction "nat (- (m div 2) - y)" arbitrary: y rule: less_induct)
  case less
  show ?case
  proof (cases "y < - (m div 2)")
    case False
    then show ?thesis using assms(1) less.prems by (subst fold_below.simps) simp
  next
    case True
    then have "nat (- (m div 2) - (y + m)) < nat (- (m div 2) - y)" using assms by linarith
    moreover have "y + m \<le> m div 2" using True assms(1) by linarith
    ultimately obtain y' where
      "fold_below (y + m) m = Some y'" "- (m div 2) \<le> y'" "y' \<le> m div 2" "m dvd (y' - (y + m))"
      using less.hyps by blast
    moreover have "m dvd (y' - y)"
    proof -
      have "y' - y = (y' - (y + m)) + m" by simp
      then show ?thesis using \<open>m dvd (y' - (y + m))\<close> by (simp only: dvd_add dvd_refl)
    qed
    ultimately show ?thesis using True assms by (subst fold_below.simps) simp
  qed
qed


lemma PowerMod_cong:
  assumes "0 < m"
  shows "m dvd (PowerMod (if z < 0 then z + m else z) p m - z ^ nat p)"
proof -
  have "(if z < 0 then z + m else z) mod m = z mod m" by simp
  then have "((if z < 0 then z + m else z) ^ nat p) mod m = (z ^ nat p) mod m"
    by (metis power_mod)
  then have "PowerMod (if z < 0 then z + m else z) p m mod m = (z ^ nat p) mod m"
    by (simp add: PowerMod_def)
  then show ?thesis by (simp only: mod_eq_dvd_iff)
qed

lemma table_y_returns:
  assumes "0 < m"
  shows "\<exists>y. table_y p m j = Some y \<and> - (m div 2) \<le> y \<and> y \<le> m div 2
             \<and> m dvd (y - (table_x p j - table_x p j ^ nat p))"
proof -
  define z where "z = table_x p j"
  define y0 where "y0 = z - PowerMod (if z < 0 then z + m else z) p m"
  obtain y1 where y1: "fold_above y0 m = Some y1" "y1 \<le> m div 2" "m dvd (y1 - y0)"
    using fold_above_returns[OF assms, of y0] by blast
  obtain y2 where y2: "fold_below y1 m = Some y2" "- (m div 2) \<le> y2" "y2 \<le> m div 2" "m dvd (y2 - y1)"
    using fold_below_returns[OF assms y1(2)] by blast
  have "y2 - (z - z ^ nat p) = (y2 - y1) + (y1 - y0) - (PowerMod (if z < 0 then z + m else z) p m - z ^ nat p)"
    by (simp add: y0_def)
  then have "m dvd (y2 - (z - z ^ nat p))"
    using y1(3) y2(4) PowerMod_cong[OF assms, of z p] by (simp only: dvd_add dvd_diff)
  moreover have "table_y p m j = Some y2"
    using y1(1)[unfolded y0_def z_def] y2(1)
    by (auto simp add: table_y_def Let_def split: if_splits)
  ultimately show ?thesis using y2(2,3) by (simp add: z_def)
qed

lemma those_map_Some:
  "\<forall>a\<in>set as. \<exists>b. f a = Some b \<Longrightarrow>
   \<exists>bs. those (map f as) = Some bs \<and> length bs = length as \<and> (\<forall>i<length as. f (as ! i) = Some (bs ! i))"
proof (induction as)
  case Nil
  show ?case by simp
next
  case (Cons a as)
  then obtain b bs where "f a = Some b" "those (map f as) = Some bs" "length bs = length as"
    "\<forall>i<length as. f (as ! i) = Some (bs ! i)" by auto
  then have "those (map f (a # as)) = Some (b # bs) \<and> length (b # bs) = length (a # as)
      \<and> (\<forall>i<length (a # as). f ((a # as) ! i) = Some ((b # bs) ! i))"
    by (auto simp add: nth_Cons split: nat.splits)
  then show ?case by blast
qed

lemma digit_table_returns:
  assumes "2 \<le> p"
  shows "\<exists>x y. digit_table p e = Some (x, y) \<and> length x = nat p \<and> length y = nat p
           \<and> (\<forall>j<nat p. x ! j = table_x p j \<and> table_y p (p ^ nat e) j = Some (y ! j))"
proof -
  have pos: "0 < p ^ nat e" using assms by simp
  have "\<forall>a\<in>set [0..<nat p]. \<exists>b. table_y p (p ^ nat e) a = Some b"
    using table_y_returns[OF pos] by blast
  from those_map_Some[OF this] obtain y where
    y: "those (map (table_y p (p ^ nat e)) [0..<nat p]) = Some y" "length y = nat p"
       "\<forall>i<nat p. table_y p (p ^ nat e) ([0..<nat p] ! i) = Some (y ! i)" by auto
  have "digit_table p e = Some (map (table_x p) [0..<nat p], y)"
    using y(1) by (simp add: digit_table_def power_long_def)
  then show ?thesis using y(2,3) by simp
qed

lemma length_interpolateMod: "length (interpolateMod xs ys p e) \<le> length xs"
  using length_strip[of "lift xs ys p (nat e)"] length_lift[of xs ys p "nat e"]
  by (simp add: interpolateMod_def)

lemma buildDigitPolynomial_built:
  assumes "2 \<le> p" and "1 < e"
  shows "\<exists>x y. digit_table p e = Some (x, y) \<and> length x = nat p
           \<and> buildDigitPolynomial result p e = Some (Inr (SetCoeff (interpolateMod x y p e) p))"
proof -
  obtain x y where xy: "digit_table p e = Some (x, y)" "length x = nat p"
    using digit_table_returns[OF assms(1), of e] by blast
  have "deg (interpolateMod x y p e) < p"
    using deg_interpolateMod[of x y p e] xy(2) assms(1) by simp
  then have "buildDigitPolynomial result p e = Some (Inr (SetCoeff (interpolateMod x y p e) p))"
    using assms xy(1) by (simp add: buildDigitPolynomial_def)
  then show ?thesis using xy by blast
qed

lemma buildDigitPolynomial_returns: "\<exists>f. buildDigitPolynomial result p e = Some (Inr f)"
proof (cases "p < 2 \<or> e \<le> 1")
  case True
  then show ?thesis by (simp add: buildDigitPolynomial_def)
next
  case False
  then show ?thesis using buildDigitPolynomial_built[of p e result] by auto
qed

text \<open>
  Claim C3.  For every \<open>p \<ge> 2\<close> and \<open>e > 1\<close> the table loop returns, the polynomial that
  \<open>interpolateMod\<close> yields from the table has degree below \<open>p\<close> (so the \<open>assert\<close>
  holds), and \<open>buildDigitPolynomial\<close> returns a polynomial of degree exactly \<open>p\<close> whose
  leading coefficient is one.
\<close>

theorem buildDigitPolynomial_degree:
  assumes "2 \<le> p" and "1 < e"
  shows "\<exists>x y f. digit_table p e = Some (x, y)
           \<and> deg (interpolateMod x y p e) < p
           \<and> buildDigitPolynomial result p e = Some (Inr f)
           \<and> deg f = p \<and> LeadCoeff f = 1"
proof -
  obtain x y where xy: "digit_table p e = Some (x, y)" "length x = nat p"
    "buildDigitPolynomial result p e = Some (Inr (SetCoeff (interpolateMod x y p e) p))"
    using buildDigitPolynomial_built[OF assms] by blast
  have len: "length (interpolateMod x y p e) \<le> nat p"
    using length_interpolateMod[of x y p e] xy(2) by simp
  have "deg (interpolateMod x y p e) < p"
    using deg_interpolateMod[of x y p e] xy(2) assms(1) by simp
  moreover have "deg (SetCoeff (interpolateMod x y p e) p) = p"
    using deg_SetCoeff[OF len] assms(1) by simp
  moreover have "LeadCoeff (SetCoeff (interpolateMod x y p e) p) = 1"
    using LeadCoeff_SetCoeff[OF len] assms(1) by simp
  ultimately show ?thesis using xy(1,3) by blast
qed

theorem buildDigitPolynomial_degree_witness:
  "(2::int) \<le> 5 \<and> (1::int) < 2
   \<and> digit_table 5 2 = Some ([- 2, - 1, 0, 1, 2], [5, 0, 0, 0, - 5])
   \<and> deg (interpolateMod [- 2, - 1, 0, 1, 2] [5, 0, 0, 0, - 5] 5 2) < 5
   \<and> buildDigitPolynomial [] 5 2 = Some (Inr [0, 5, 0, 20, 0, 1])
   \<and> deg [0, 5, 0, 20, 0, 1] = 5 \<and> LeadCoeff [0, 5, 0, 20, 0, 1] = 1"
proof -
  have t: "digit_table 5 2 = Some ([- 2, - 1, 0, 1, 2], [5, 0, 0, 0, - 5])" by code_simp
  have b: "buildDigitPolynomial [] 5 2 = Some (Inr [0, 5, 0, 20, 0, 1])" by code_simp
  show ?thesis
    using buildDigitPolynomial_degree[of 5 2 "[]"] t b by simp
qed

subsection \<open>Abscissae and ordinates of the table\<close>

lemma table_x_centered: "2 \<le> p \<Longrightarrow> table_x p j = - (p div 2) + int j"
  by (simp add: table_x_def)

lemma centered_residues:
  assumes "2 \<le> p" and "0 \<le> r" and "r < (p::int)"
  shows "\<exists>!j. j < nat p \<and> (- (p div 2) + int j) mod p = r"
proof -
  define j0 where "j0 = nat ((r + p div 2) mod p)"
  have j0: "int j0 = (r + p div 2) mod p" using assms by (simp add: j0_def)
  have "j0 < nat p" using assms j0 by (metis nat_less_iff pos_mod_sign pos_mod_bound not_less zero_less_numeral order_less_le_trans j0_def less_le_trans zless_nat_conj)
  moreover have "(- (p div 2) + int j0) mod p = r"
  proof -
    have "(- (p div 2) + int j0) mod p = (- (p div 2) + (r + p div 2)) mod p"
      unfolding j0 by (rule mod_add_right_eq)
    then show ?thesis using assms by simp
  qed
  moreover have "j = j0" if "j < nat p" and "(- (p div 2) + int j) mod p = r" for j
  proof -
    have "(- (p div 2) + int j) mod p = (- (p div 2) + int j0) mod p"
      using that(2) \<open>(- (p div 2) + int j0) mod p = r\<close> by simp
    then have "p dvd ((- (p div 2) + int j) - (- (p div 2) + int j0))"
      by (simp only: mod_eq_dvd_iff)
    then have d: "p dvd (int j - int j0)" by simp
    have "\<bar>int j - int j0\<bar> < p" using that(1) \<open>j0 < nat p\<close> by linarith
    then have "int j - int j0 = 0"
      using d assms(1) by (metis abs_of_nonneg dvd_imp_le_int not_less order_trans zero_le_numeral abs_ge_zero)
    then show ?thesis by simp
  qed
  ultimately show ?thesis by blast
qed


lemma is_prime_odd:
  assumes "is_prime p" and "3 < p"
  shows "odd p"
proof
  assume "even p"
  moreover have "2 \<in> {2..<p}" using assms(2) by simp
  ultimately show False using assms(1) unfolding is_prime_def by blast
qed

text \<open>
  Claim C7.  \<open>buildDigitPolynomial\<close> is a \<open>static\<close> function whose only call is line 44,
  under \<open>p > 3\<close> and with the plaintext prime of the context, so every \<open>p\<close> that it receives
  is odd (\<open>is_prime_odd\<close>).  For an odd \<open>p \<ge> 2\<close> and \<open>e > 1\<close> the table loop returns; the
  abscissae are the \<open>p\<close> consecutive integers \<open>z = - \<lfloor>p/2\<rfloor> + j\<close>, exactly one in each
  residue class modulo \<open>p\<close>; and every ordinate \<open>y[j]\<close> is congruent to \<open>z - z^p\<close> modulo
  \<open>p^e\<close> and lies in the half-open interval \<open>(- p^e/2, p^e/2]\<close>.
\<close>

theorem digit_table_centered:
  assumes "2 \<le> p" and "odd p" and "1 < e"
  shows "\<exists>x y. digit_table p e = Some (x, y) \<and> length x = nat p \<and> length y = nat p
           \<and> (\<forall>j<nat p. x ! j = - (p div 2) + int j)
           \<and> (\<forall>r. 0 \<le> r \<and> r < p \<longrightarrow> (\<exists>!j. j < nat p \<and> x ! j mod p = r))
           \<and> (\<forall>j<nat p. p ^ nat e dvd (y ! j - (x ! j - x ! j ^ nat p))
                    \<and> - (p ^ nat e) < 2 * y ! j \<and> 2 * y ! j \<le> p ^ nat e)"
proof -
  obtain x y where xy: "digit_table p e = Some (x, y)" "length x = nat p" "length y = nat p"
    and tab: "\<And>j. j < nat p \<Longrightarrow> x ! j = table_x p j \<and> table_y p (p ^ nat e) j = Some (y ! j)"
    using digit_table_returns[OF assms(1), of e] by blast
  have pos: "0 < p ^ nat e" using assms(1) by simp
  have "odd (p ^ nat e)" using assms(2) by simp
  then have half: "2 * (p ^ nat e div 2) < p ^ nat e"
    by (metis odd_two_times_div_two_succ less_add_one)
  have xj: "x ! j = - (p div 2) + int j" if "j < nat p" for j
    using tab[OF that] table_x_centered[OF assms(1)] by simp
  have res: "\<exists>!j. j < nat p \<and> x ! j mod p = r" if "0 \<le> r \<and> r < p" for r
  proof -
    have "\<exists>!j. j < nat p \<and> (- (p div 2) + int j) mod p = r"
      using centered_residues[OF assms(1)] that by blast
    then show ?thesis using xj by (metis (no_types, lifting))
  qed
  have yj: "p ^ nat e dvd (y ! j - (x ! j - x ! j ^ nat p))
      \<and> - (p ^ nat e) < 2 * y ! j \<and> 2 * y ! j \<le> p ^ nat e" if "j < nat p" for j
  proof -
    obtain y' where y': "table_y p (p ^ nat e) j = Some y'" "- (p ^ nat e div 2) \<le> y'"
      "y' \<le> p ^ nat e div 2" "p ^ nat e dvd (y' - (table_x p j - table_x p j ^ nat p))"
      using table_y_returns[OF pos, of p j] by blast
    have eq: "y ! j = y'" "x ! j = table_x p j" using tab[OF that] y'(1) by simp_all
    have "- (p ^ nat e) < 2 * y'" using half y'(2) by linarith
    moreover have "2 * y' \<le> p ^ nat e" using half y'(3) by linarith
    ultimately show ?thesis using y'(4) eq by simp
  qed
  show ?thesis using xy xj res yj by blast
qed

theorem digit_table_centered_witness:
  "(2::int) \<le> 5 \<and> odd (5::int) \<and> (1::int) < 2
   \<and> digit_table 5 2 = Some ([- 2, - 1, 0, 1, 2], [5, 0, 0, 0, - 5])
   \<and> [- 2, - 1, 0, 1, 2::int] ! 3 = - (5 div 2) + int 3
   \<and> [- 2, - 1, 0, 1, 2::int] ! 3 mod 5 = 1
   \<and> (5::int) ^ nat 2 dvd ([5, 0, 0, 0, - 5] ! 4 - ([- 2, - 1, 0, 1, 2] ! 4 - [- 2, - 1, 0, 1, 2] ! 4 ^ nat 5))
   \<and> - ((5::int) ^ nat 2) < 2 * [5, 0, 0, 0, - 5] ! 4
   \<and> 2 * [5, 0, 0, 0, - 5] ! 4 \<le> (5::int) ^ nat 2"
proof -
  have t: "digit_table 5 2 = Some ([- 2, - 1, 0, 1, 2], [5, 0, 0, 0, - 5])" by code_simp
  show ?thesis
    using digit_table_centered[of 5 2] t by simp
qed

section \<open>Arithmetic modulo prime powers\<close>

lemma is_prime_coprime:
  assumes "is_prime p" and "\<not> p dvd a"
  shows "coprime a p"
proof -
  let ?g = "gcd a p"
  have p: "2 \<le> p" using assms(1) by (simp add: is_prime_def)
  have g0: "0 \<le> ?g" by simp
  have gp: "?g dvd p" by simp
  then have "?g \<le> p" using p by (simp add: zdvd_imp_le)
  moreover have "?g \<noteq> p" using assms(2) by (metis gcd_dvd1)
  moreover have "?g \<noteq> 0" using p by simp
  ultimately have "?g = 1 \<or> ?g \<in> {2..<p}" using g0 by (simp; linarith)
  then have "?g = 1" using assms(1) gp by (auto simp add: is_prime_def)
  then show ?thesis by (simp only: coprime_iff_gcd_eq_1)
qed

lemma is_prime_dvd_mult:
  assumes "is_prime p" and "p dvd a * b"
  shows "p dvd a \<or> p dvd b"
proof (cases "p dvd a")
  case True
  then show ?thesis by simp
next
  case False
  then have "coprime p a" using is_prime_coprime[OF assms(1)] by (simp add: coprime_commute)
  then show ?thesis using assms(2) by (simp add: coprime_dvd_mult_right_iff)
qed

lemma inv_mod_correct:
  assumes "coprime a p" and "1 < p"
  shows "p dvd (a * inv_mod a p - 1)"
proof -
  let ?x = "nat (a mod p)" and ?y = "nat p"
  have x: "int ?x = a mod p" using assms(2) by simp
  have y: "int ?y = p" using assms(2) by simp
  have "coprime (a mod p) p" using assms by (simp add: coprime_mod_left_iff)
  then have "gcd (int ?x) (int ?y) = 1" unfolding x y by (simp only: coprime_iff_gcd_eq_1)
  then have "int (gcd ?x ?y) = 1" by (simp only: gcd_int_int_eq)
  then have "fst (bezw ?x ?y) * int ?x + snd (bezw ?x ?y) * int ?y = 1"
    using bezw_aux[of ?x ?y] by simp
  then have e: "fst (bezw ?x ?y) * (a mod p) + snd (bezw ?x ?y) * p = 1" unfolding x y .
  have "(a * inv_mod a p) mod p = ((a mod p) * fst (bezw ?x ?y)) mod p"
    unfolding inv_mod_def by (rule mod_mult_cong) simp_all
  also have "\<dots> = (fst (bezw ?x ?y) * (a mod p) + snd (bezw ?x ?y) * p) mod p"
    by (simp add: mult.commute)
  also have "\<dots> = 1 mod p" using e by simp
  finally show ?thesis by (simp only: mod_eq_dvd_iff)
qed

lemma is_prime_dvd_choose:
  assumes "is_prime p" and "0 < k" and "k < nat p"
  shows "p dvd int (nat p choose k)"
proof -
  have p: "2 \<le> p" using assms(1) by (simp add: is_prime_def)
  have "k * (nat p choose k) = nat p * ((nat p - 1) choose (k - 1))"
    using assms(2) by (rule times_binomial_minus1_eq)
  then have "int (k * (nat p choose k)) = int (nat p * ((nat p - 1) choose (k - 1)))"
    by (rule arg_cong)
  then have "int k * int (nat p choose k) = p * int ((nat p - 1) choose (k - 1))"
    using p by simp
  then have "p dvd int k * int (nat p choose k)" by simp
  moreover have "\<not> p dvd int k"
    using assms(2,3) zdvd_not_zless[of "int k" p] by simp
  ultimately show ?thesis using is_prime_dvd_mult[OF assms(1)] by blast
qed

lemma fermat_nat:
  assumes "is_prime p"
  shows "p dvd (int a ^ nat p - int a)"
proof (induction a)
  case 0
  have "0 < nat p" using assms by (simp add: is_prime_def)
  then show ?case by (simp add: power_0_left)
next
  case (Suc a)
  let ?n = "nat p"
  have "2 \<le> p" using assms by (simp add: is_prime_def)
  then have n: "2 \<le> ?n" by linarith
  have "(int a + 1) ^ ?n = (\<Sum>k\<le>?n. int (?n choose k) * int a ^ k * 1 ^ (?n - k))"
    by (rule binomial_ring)
  also have "\<dots> = (\<Sum>k\<le>?n. int (?n choose k) * int a ^ k)" by simp
  also have "{..?n} = insert 0 (insert ?n {1..<?n})" using n by auto
  also have "(\<Sum>k\<in>insert 0 (insert ?n {1..<?n}). int (?n choose k) * int a ^ k)
      = 1 + int a ^ ?n + (\<Sum>k\<in>{1..<?n}. int (?n choose k) * int a ^ k)"
    using n by simp
  finally have e: "(int a + 1) ^ ?n - (int a + 1)
      = (int a ^ ?n - int a) + (\<Sum>k\<in>{1..<?n}. int (?n choose k) * int a ^ k)" by simp
  have "p dvd (\<Sum>k\<in>{1..<?n}. int (?n choose k) * int a ^ k)"
    by (rule dvd_sum) (simp add: is_prime_dvd_choose[OF assms] dvd_mult2)
  then have "p dvd (int a + 1) ^ ?n - (int a + 1)"
    unfolding e using Suc.IH by (rule_tac dvd_add)
  then show ?case by (simp add: add.commute)
qed

lemma fermat:
  assumes "is_prime p"
  shows "p dvd (a ^ nat p - a)"
proof -
  have p: "0 < p" using assms by (simp add: is_prime_def)
  have "(a ^ nat p) mod p = ((a mod p) ^ nat p) mod p" by (simp add: power_mod)
  also have "\<dots> = (int (nat (a mod p)) ^ nat p) mod p" using p by simp
  also have "\<dots> = int (nat (a mod p)) mod p"
    using fermat_nat[OF assms, of "nat (a mod p)"] by (simp only: mod_eq_dvd_iff)
  also have "\<dots> = a mod p" using p by simp
  finally show ?thesis by (simp only: mod_eq_dvd_iff)
qed

lemma power_diff_dvd:
  fixes a b m :: int
  shows "m dvd (a - b) \<Longrightarrow> m dvd (a ^ i - b ^ i)"
proof (induction i)
  case 0
  show ?case by simp
next
  case (Suc i)
  have "a ^ Suc i - b ^ Suc i = a * (a ^ i - b ^ i) + (a - b) * b ^ i"
    by (simp add: algebra_simps)
  then show ?case using Suc by (simp only: dvd_add dvd_mult dvd_mult2)
qed

lemma power_lift:
  assumes "0 < n" and "1 \<le> t" and "int n ^ t dvd (a - b)"
  shows "int n ^ Suc t dvd (a ^ n - b ^ n)"
proof -
  obtain m where n: "n = Suc m" using assms(1) by (cases n) simp_all
  have "int n dvd int n ^ t" using assms(2) by (simp add: dvd_power)
  then have ab: "int n dvd (a - b)" using assms(3) by (rule dvd_trans)
  have split: "(\<Sum>i<Suc m. a ^ i * b ^ (m - i))
      = (\<Sum>i<Suc m. (a ^ i - b ^ i) * b ^ (m - i)) + (\<Sum>i<Suc m. b ^ i * b ^ (m - i))"
    by (simp only: sum.distrib[symmetric] left_diff_distrib diff_add_cancel)
  have "(\<Sum>i<Suc m. b ^ i * b ^ (m - i)) = (\<Sum>i<Suc m. b ^ m)"
    by (rule sum.cong) (simp_all flip: power_add)
  also have "\<dots> = int n * b ^ m" by (simp only: sum_constant card_lessThan n)
  finally have 2: "int n dvd (\<Sum>i<Suc m. b ^ i * b ^ (m - i))" by simp
  have 1: "int n dvd (\<Sum>i<Suc m. (a ^ i - b ^ i) * b ^ (m - i))"
    by (rule dvd_sum) (simp add: power_diff_dvd[OF ab])
  have s: "int n dvd (\<Sum>i<Suc m. a ^ i * b ^ (m - i))"
    unfolding split using 1 2 by (rule dvd_add)
  have "a ^ n - b ^ n = (a - b) * (\<Sum>i<Suc m. a ^ i * b ^ (m - i))"
    unfolding n by (rule diff_power_eq_sum)
  moreover have "int n ^ t * int n dvd (a - b) * (\<Sum>i<Suc m. a ^ i * b ^ (m - i))"
    using assms(3) s by (rule mult_dvd_mono)
  ultimately show ?thesis by (simp add: mult.commute)
qed

lemma eval_cong:
  "m dvd (a - b) \<Longrightarrow> m dvd (eval f a - eval f b)"
proof (induction f)
  case Nil
  show ?case by simp
next
  case (Cons c f)
  have "eval (c # f) a - eval (c # f) b = a * (eval f a - eval f b) + (a - b) * eval f b"
    by (simp add: algebra_simps)
  then show ?case using Cons by (simp only: dvd_add dvd_mult dvd_mult2)
qed

lemma eval_dvd:
  "\<forall>c\<in>set f. m dvd c \<Longrightarrow> m dvd eval f z"
  by (induction f) simp_all

lemma eval_cong_lift:
  assumes "\<forall>c\<in>set f. p dvd c" and "p ^ t dvd (a - b)"
  shows "p ^ Suc t dvd (eval f a - eval f b)"
  using assms(1)
proof (induction f)
  case Nil
  show ?case by simp
next
  case (Cons c f)
  have e: "eval (c # f) a - eval (c # f) b = a * (eval f a - eval f b) + (a - b) * eval f b"
    by (simp add: algebra_simps)
  have "p ^ Suc t dvd (eval f a - eval f b)" using Cons by simp
  then have 1: "p ^ Suc t dvd a * (eval f a - eval f b)" by (rule dvd_mult)
  have "p dvd eval f b" using Cons.prems by (simp add: eval_dvd)
  then have "p ^ t * p dvd (a - b) * eval f b" using assms(2) by (rule_tac mult_dvd_mono)
  then have 2: "p ^ Suc t dvd (a - b) * eval f b" by (simp add: mult.commute)
  show ?case unfolding e using 1 2 by (rule dvd_add)
qed

section \<open>Correctness of the interpolation\<close>

lemma eval_pmod: "m dvd (eval (pmod f m) z - eval f z)"
proof (induction f)
  case Nil
  show ?case by (simp add: pmod_def)
next
  case (Cons c f)
  have "eval (pmod (c # f) m) z - eval (c # f) z
      = (c mod m - c) + z * (eval (pmod f m) z - eval f z)"
    by (simp add: pmod_def algebra_simps)
  moreover have "m dvd (c mod m - c)" by (simp add: mod_eq_dvd_iff[symmetric])
  ultimately show ?case using Cons by (simp only: dvd_add dvd_mult)
qed

lemma set_padd_dvd:
  "\<forall>a\<in>set f. m dvd a \<Longrightarrow> \<forall>b\<in>set g. m dvd b \<Longrightarrow> \<forall>c\<in>set (padd f g). (m::int) dvd c"
  by (induction f g rule: padd.induct) simp_all

lemma set_smult_dvd: "m dvd c \<Longrightarrow> \<forall>a\<in>set (smult c f). (m::int) dvd a"
  by (simp add: smult_def)

lemma set_pmod_dvd: "\<forall>a\<in>set f. m dvd a \<Longrightarrow> \<forall>a\<in>set (pmod f m). (m::int) dvd a"
  by (simp add: pmod_def dvd_mod_iff)

text \<open>Newton interpolation modulo a prime, at abscissae that are distinct modulo \<open>p\<close>.\<close>

lemma interp_p_correct:
  assumes "is_prime p" and "distinct (map (\<lambda>x. x mod p) (map fst pts))"
  shows "(\<forall>(x, y)\<in>set pts. p dvd (eval (fst (interp_p pts p)) x - y))
       \<and> (\<forall>z. p dvd eval (snd (interp_p pts p)) z \<longleftrightarrow> (\<exists>x\<in>set (map fst pts). p dvd (z - x)))"
  using assms(2)
proof (induction pts)
  case Nil
  have "\<not> p dvd 1" using assms(1) by (simp add: is_prime_def)
  then show ?case by simp
next
  case (Cons pt pts)
  obtain x y where pt: "pt = (x, y)" by (cases pt)
  obtain q nodal where qn: "interp_p pts p = (q, nodal)" by (cases "interp_p pts p")
  define c where "c = ((y - eval q x) * inv_mod (eval nodal x) p) mod p"
  have step: "interp_p (pt # pts) p = (pmod (padd q (smult c nodal)) p, pmod (pmul_lin nodal x) p)"
    by (simp add: pt qn c_def)
  have dist: "distinct (map (\<lambda>x. x mod p) (map fst pts))"
    and new: "\<forall>x'\<in>set (map fst pts). x mod p \<noteq> x' mod p"
    using Cons.prems by (auto simp add: pt)
  have IHq: "\<And>x' y'. (x', y') \<in> set pts \<Longrightarrow> p dvd (eval q x' - y')"
    and IHn: "\<And>z. p dvd eval nodal z \<longleftrightarrow> (\<exists>x'\<in>set (map fst pts). p dvd (z - x'))"
    using Cons.IH[OF dist] qn by auto
  have p1: "1 < p" using assms(1) by (simp add: is_prime_def)
  \<comment> \<open>the nodal polynomial\<close>
  have nodal': "p dvd eval (pmod (pmul_lin nodal x) p) z \<longleftrightarrow> (\<exists>x'\<in>set (map fst (pt # pts)). p dvd (z - x'))" for z
  proof -
    have "p dvd (eval (pmod (pmul_lin nodal x) p) z - (z - x) * eval nodal z)"
      using eval_pmod[of p "pmul_lin nodal x" z] by simp
    then have "p dvd eval (pmod (pmul_lin nodal x) p) z \<longleftrightarrow> p dvd (z - x) * eval nodal z"
      by (metis dvd_diff_commute dvd_add_right_iff diff_add_cancel)
    also have "\<dots> \<longleftrightarrow> p dvd (z - x) \<or> p dvd eval nodal z"
      using is_prime_dvd_mult[OF assms(1)] by (auto simp add: dvd_mult dvd_mult2)
    finally show ?thesis using IHn by (auto simp add: pt)
  qed
  \<comment> \<open>the new point\<close>
  have "\<not> p dvd eval nodal x"
    using IHn new by (auto simp add: mod_eq_dvd_iff)
  then have "coprime (eval nodal x) p" using is_prime_coprime[OF assms(1)] by simp
  then have inv: "p dvd (eval nodal x * inv_mod (eval nodal x) p - 1)"
    using inv_mod_correct p1 by simp
  have cc: "p dvd (c - (y - eval q x) * inv_mod (eval nodal x) p)"
    unfolding c_def by (simp add: mod_eq_dvd_iff[symmetric])
  have ev: "p dvd (eval (pmod (padd q (smult c nodal)) p) z - (eval q z + c * eval nodal z))" for z
    using eval_pmod[of p "padd q (smult c nodal)" z] by simp
  have at_new: "p dvd (eval (pmod (padd q (smult c nodal)) p) x - y)"
  proof -
    have "eval (pmod (padd q (smult c nodal)) p) x - y
        = (eval (pmod (padd q (smult c nodal)) p) x - (eval q x + c * eval nodal x))
          + (c - (y - eval q x) * inv_mod (eval nodal x) p) * eval nodal x
          + (y - eval q x) * (eval nodal x * inv_mod (eval nodal x) p - 1)"
      by (simp add: algebra_simps)
    then show ?thesis using ev[of x] cc inv by (simp only: dvd_add dvd_mult dvd_mult2)
  qed
  have at_old: "p dvd (eval (pmod (padd q (smult c nodal)) p) x' - y')" if "(x', y') \<in> set pts" for x' y'
  proof -
    have "x' \<in> set (map fst pts)" using that by force
    then have "\<exists>x''\<in>set (map fst pts). p dvd (x' - x'')"
      by (intro bexI[of _ x']) simp_all
    then have "p dvd eval nodal x'" by (simp only: IHn)
    moreover have "eval (pmod (padd q (smult c nodal)) p) x' - y'
        = (eval (pmod (padd q (smult c nodal)) p) x' - (eval q x' + c * eval nodal x'))
          + (eval q x' - y') + c * eval nodal x'"
      by simp
    ultimately show ?thesis using ev[of x'] IHq[OF that] by (simp only: dvd_add dvd_mult)
  qed
  show ?case
    unfolding step using nodal' at_new at_old by (auto simp add: pt)
qed

lemma interp_p_zero:
  assumes "\<forall>(x, y)\<in>set pts. p dvd y"
  shows "\<forall>a\<in>set (fst (interp_p pts p)). p dvd a"
  using assms
proof (induction pts)
  case Nil
  show ?case by simp
next
  case (Cons pt pts)
  obtain x y where pt: "pt = (x, y)" by (cases pt)
  obtain q nodal where qn: "interp_p pts p = (q, nodal)" by (cases "interp_p pts p")
  define c where "c = ((y - eval q x) * inv_mod (eval nodal x) p) mod p"
  have step: "fst (interp_p (pt # pts) p) = pmod (padd q (smult c nodal)) p"
    by (simp add: pt qn c_def)
  have q: "\<forall>a\<in>set q. p dvd a" using Cons qn by simp
  have "p dvd y" using Cons.prems by (simp add: pt)
  then have "p dvd (y - eval q x)" using eval_dvd[OF q, of x] by (rule dvd_diff)
  then have "p dvd c" unfolding c_def by (simp add: dvd_mod_iff)
  then have "\<forall>a\<in>set (padd q (smult c nodal)). p dvd a"
    using q set_smult_dvd[of p c nodal] set_padd_dvd[of q p "smult c nodal"] by blast
  then show ?case unfolding step by (rule set_pmod_dvd)
qed

lemma lift_correct:
  assumes "is_prime p" and "distinct (map (\<lambda>x. x mod p) xs)" and "length ys = length xs"
    and "j < length xs"
  shows "p ^ k dvd (eval (lift xs ys p k) (xs ! j) - ys ! j)"
  using assms(3)
proof (induction k arbitrary: ys)
  case 0
  show ?case by simp
next
  case (Suc k)
  define q where "q = fst (interp_p (zip xs ys) p)"
  define ys' where "ys' = map2 (\<lambda>x y. ((y - eval q x) mod p ^ Suc k) div p) xs ys"
  define d where "d = ys ! j - eval q (xs ! j)"
  define r where "r = d mod p ^ Suc k"
  have len: "length ys' = length xs" using Suc.prems by (simp add: ys'_def)
  have step: "lift xs ys p (Suc k) = padd q (smult p (lift xs ys' p k))"
    by (simp add: q_def ys'_def Let_def)
  have "map fst (zip xs ys) = xs" using Suc.prems by (simp add: map_fst_zip)
  then have "\<forall>(x, y)\<in>set (zip xs ys). p dvd (eval q x - y)"
    using interp_p_correct[OF assms(1), of "zip xs ys"] assms(2) by (simp add: q_def)
  moreover have "(xs ! j, ys ! j) \<in> set (zip xs ys)"
    using assms(4) Suc.prems by (metis in_set_zip fst_conv snd_conv)
  ultimately have "p dvd (eval q (xs ! j) - ys ! j)" by blast
  then have pd: "p dvd d" unfolding d_def by (simp only: dvd_diff_commute)
  have "p dvd p ^ Suc k" by simp
  then have "p dvd r" unfolding r_def using pd by (rule_tac dvd_mod)
  then have pr: "p * (r div p) = r" by simp
  have "ys' ! j = r div p"
    using assms(4) Suc.prems by (simp add: ys'_def r_def d_def)
  then have "p ^ k dvd (eval (lift xs ys' p k) (xs ! j) - r div p)"
    using Suc.IH[OF len] by simp
  then have "p * p ^ k dvd p * (eval (lift xs ys' p k) (xs ! j) - r div p)"
    by (rule mult_dvd_mono[OF dvd_refl])
  then have 1: "p ^ Suc k dvd (p * eval (lift xs ys' p k) (xs ! j) - r)"
    using pr by (simp add: right_diff_distrib)
  have 2: "p ^ Suc k dvd (r - d)" unfolding r_def by (simp add: mod_eq_dvd_iff[symmetric])
  have "eval (lift xs ys p (Suc k)) (xs ! j) - ys ! j
      = (p * eval (lift xs ys' p k) (xs ! j) - r) + (r - d)"
    unfolding step d_def by simp
  then show ?case using 1 2 by (simp only: dvd_add)
qed

lemma lift_coeffs_dvd:
  assumes "\<forall>y\<in>set ys. p dvd y"
  shows "\<forall>a\<in>set (lift xs ys p k). p dvd a"
proof (cases k)
  case 0
  then show ?thesis by simp
next
  case (Suc k')
  define q where "q = fst (interp_p (zip xs ys) p)"
  define ys' where "ys' = map2 (\<lambda>x y. ((y - eval q x) mod p ^ Suc k') div p) xs ys"
  have step: "lift xs ys p k = padd q (smult p (lift xs ys' p k'))"
    by (simp add: Suc q_def ys'_def Let_def)
  have "\<forall>(x, y)\<in>set (zip xs ys). p dvd y" using assms by (auto dest: set_zip_rightD)
  then have "\<forall>a\<in>set q. p dvd a" unfolding q_def by (rule interp_p_zero)
  moreover have "\<forall>a\<in>set (smult p (lift xs ys' p k')). p dvd a"
    by (rule set_smult_dvd) simp
  ultimately show ?thesis unfolding step by (rule set_padd_dvd)
qed

lemma table_x_distinct:
  assumes "2 \<le> p"
  shows "distinct (map (\<lambda>x. x mod p) (map (table_x p) [0..<nat p]))"
proof -
  have "i = j" if "i < nat p" "j < nat p" "table_x p i mod p = table_x p j mod p" for i j
  proof -
    have r: "0 \<le> table_x p j mod p \<and> table_x p j mod p < p" using assms by simp
    from centered_residues[OF assms, of "table_x p j mod p"] r
    have "\<exists>!k. k < nat p \<and> (- (p div 2) + int k) mod p = table_x p j mod p" by blast
    then show ?thesis using that table_x_centered[OF assms] by (metis (no_types, lifting))
  qed
  then show ?thesis by (auto simp add: distinct_conv_nth)
qed

text \<open>
  What the assembled polynomial is: \<open>X^p\<close> plus a correction whose coefficients are all
  multiples of \<open>p\<close> and which takes the value \<open>z - z^p\<close> modulo \<open>p^e\<close> at every abscissa of
  the table.
\<close>

lemma buildDigitPolynomial_shape:
  assumes "is_prime p" and "1 < e" and "buildDigitPolynomial result p e = Some (Inr f)"
  shows "\<exists>g. (\<forall>z. eval f z = eval g z + z ^ nat p) \<and> (\<forall>a\<in>set g. p dvd a)
           \<and> (\<forall>j<nat p. p ^ nat e dvd (eval g (table_x p j) - (table_x p j - table_x p j ^ nat p)))"
proof -
  have p2: "2 \<le> p" using assms(1) by (simp add: is_prime_def)
  obtain x y where xy: "digit_table p e = Some (x, y)" "length x = nat p" "length y = nat p"
    and tab: "\<And>j. j < nat p \<Longrightarrow> x ! j = table_x p j \<and> table_y p (p ^ nat e) j = Some (y ! j)"
    using digit_table_returns[OF p2, of e] by blast
  obtain x' y' where b: "digit_table p e = Some (x', y')"
    "buildDigitPolynomial result p e = Some (Inr (SetCoeff (interpolateMod x' y' p e) p))"
    using buildDigitPolynomial_built[OF p2 assms(2), of result] by blast
  have f: "f = SetCoeff (interpolateMod x y p e) (int (nat p))"
    using b xy(1) assms(3) p2 by simp
  have len: "length (interpolateMod x y p e) \<le> nat p"
    using length_interpolateMod[of x y p e] xy(2) by simp
  define g where "g = lift x y p (nat e)"
  have pos: "0 < p ^ nat e" using p2 by simp
  have x_eq: "x = map (table_x p) [0..<nat p]"
    using xy(2) tab by (intro nth_equalityI) simp_all
  have dist: "distinct (map (\<lambda>x. x mod p) x)" unfolding x_eq by (rule table_x_distinct[OF p2])
  have yj: "p ^ nat e dvd (y ! j - (table_x p j - table_x p j ^ nat p))" if "j < nat p" for j
    using table_y_returns[OF pos, of p j] tab[OF that] by auto
  have ydvd: "\<forall>v\<in>set y. p dvd v"
  proof
    fix v assume "v \<in> set y"
    then obtain j where j: "j < nat p" "v = y ! j" using xy(3) by (metis in_set_conv_nth)
    have "p dvd p ^ nat e" using assms(2) by (simp add: dvd_power)
    then have "p dvd (y ! j - (table_x p j - table_x p j ^ nat p))"
      using yj[OF j(1)] by (rule dvd_trans)
    moreover have "p dvd (table_x p j ^ nat p - table_x p j)" by (rule fermat[OF assms(1)])
    ultimately have "p dvd (y ! j - (table_x p j - table_x p j ^ nat p))
        - (table_x p j ^ nat p - table_x p j)" by (rule dvd_diff)
    then show "p dvd v" using j(2) by simp
  qed
  have 1: "eval f z = eval g z + z ^ nat p" for z
    unfolding f using eval_SetCoeff[OF len, of z] by (simp add: interpolateMod_def g_def)
  have 2: "\<forall>a\<in>set g. p dvd a" unfolding g_def using ydvd by (rule lift_coeffs_dvd)
  have 3: "p ^ nat e dvd (eval g (table_x p j) - (table_x p j - table_x p j ^ nat p))" if "j < nat p" for j
  proof -
    have "p ^ nat e dvd (eval g (x ! j) - y ! j)"
      unfolding g_def using lift_correct[OF assms(1) dist] xy(2,3) that by simp
    then have "p ^ nat e dvd (eval g (x ! j) - y ! j) + (y ! j - (table_x p j - table_x p j ^ nat p))"
      using yj[OF that] by (rule dvd_add)
    moreover have "(eval g (x ! j) - y ! j) + (y ! j - (table_x p j - table_x p j ^ nat p))
        = eval g (table_x p j) - (table_x p j - table_x p j ^ nat p)"
      using tab[OF that] by simp
    ultimately show ?thesis by (simp only:)
  qed
  show ?thesis using 1 2 3 by blast
qed

lemma buildDigitPolynomial_lifts:
  assumes "is_prime p" and "1 < e" and "buildDigitPolynomial result p e = Some (Inr f)"
    and "- (p div 2) \<le> z0" and "z0 < p - p div 2"
    and "1 \<le> t" and "int t < e" and "p ^ t dvd (z - z0)"
  shows "p ^ Suc t dvd (eval f z - z0)"
proof -
  have p2: "2 \<le> p" using assms(1) by (simp add: is_prime_def)
  obtain g where g: "\<And>z. eval f z = eval g z + z ^ nat p" "\<forall>a\<in>set g. p dvd a"
    "\<And>j. j < nat p \<Longrightarrow> p ^ nat e dvd (eval g (table_x p j) - (table_x p j - table_x p j ^ nat p))"
    using buildDigitPolynomial_shape[OF assms(1,2,3)] by blast
  define j where "j = nat (z0 + p div 2)"
  have j: "j < nat p" "table_x p j = z0"
    using assms(4,5) p2 by (simp_all add: j_def table_x_centered)
  have 1: "p ^ Suc t dvd (eval g z - eval g z0)" using g(2) assms(8) by (rule eval_cong_lift)
  have "int (nat p) ^ Suc t dvd (z ^ nat p - z0 ^ nat p)"
    using power_lift[of "nat p" t z z0] assms(6,8) p2 by simp
  then have 2: "p ^ Suc t dvd (z ^ nat p - z0 ^ nat p)" using p2 by simp
  have "Suc t \<le> nat e" using assms(7) by linarith
  then have "p ^ Suc t dvd p ^ nat e" by (rule le_imp_power_dvd)
  then have 3: "p ^ Suc t dvd (eval g z0 - (z0 - z0 ^ nat p))"
    using g(3)[OF j(1)] unfolding j(2) by (rule dvd_trans)
  have "eval f z - z0 = (eval g z - eval g z0) + (z ^ nat p - z0 ^ nat p) + (eval g z0 - (z0 - z0 ^ nat p))"
    by (simp add: g(1))
  then show ?thesis using 1 2 3 by (simp only: dvd_add)
qed

lemma buildDigitPolynomial_mod_p:
  assumes "is_prime p" and "1 < e" and "buildDigitPolynomial result p e = Some (Inr f)"
  shows "p dvd (eval f z - z)"
proof -
  obtain g where g: "\<And>z. eval f z = eval g z + z ^ nat p" "\<forall>a\<in>set g. p dvd a"
    using buildDigitPolynomial_shape[OF assms(1,2,3)] by blast
  have "p dvd eval g z" using g(2) by (rule eval_dvd)
  moreover have "p dvd (z ^ nat p - z)" by (rule fermat[OF assms(1)])
  ultimately have "p dvd eval g z + (z ^ nat p - z)" by (rule dvd_add)
  moreover have "eval g z + (z ^ nat p - z) = eval f z - z" by (simp add: g(1))
  ultimately show ?thesis by (simp only:)
qed

text \<open>
  What the polynomial does, on the residues of its table.  For a prime \<open>p\<close>, a precision
  \<open>e > 1\<close>, a centered residue \<open>z0\<close> with \<open>- \<lfloor>p/2\<rfloor> \<le> z0 < p - \<lfloor>p/2\<rfloor>\<close>, every \<open>t < e\<close> and
  every \<open>z = z0 + p^t * z1\<close> (\<open>z = z0 + p * z1\<close> when \<open>t = 0\<close>), the polynomial takes at \<open>z\<close>
  a value congruent to \<open>z0\<close> modulo \<open>p^(t+1)\<close>.
\<close>

lemma buildDigitPolynomial_centered:
  assumes "is_prime p" and "1 < e"
    and "- (p div 2) \<le> z0" and "z0 < p - p div 2"
    and "int t < e" and "p ^ max 1 t dvd (z - z0)"
  shows "\<exists>f. buildDigitPolynomial result p e = Some (Inr f) \<and> p ^ (t + 1) dvd (eval f z - z0)"
proof -
  obtain f where f: "buildDigitPolynomial result p e = Some (Inr f)"
    using buildDigitPolynomial_returns by blast
  have "p ^ (t + 1) dvd (eval f z - z0)"
  proof (cases "t = 0")
    case True
    have "p dvd (eval f z - z)" by (rule buildDigitPolynomial_mod_p[OF assms(1,2) f])
    moreover have "p dvd (z - z0)" using assms(6) True by simp
    ultimately have "p dvd (eval f z - z) + (z - z0)" by (rule dvd_add)
    then show ?thesis using True by simp
  next
    case False
    then have t: "1 \<le> t" "p ^ t dvd (z - z0)" using assms(6) by (simp_all add: max_def)
    show ?thesis
      using buildDigitPolynomial_lifts[OF assms(1,2) f assms(3,4) t(1) assms(5) t(2)] by simp
  qed
  then show ?thesis using f by blast
qed

text \<open>
  Claim C2, at \<open>p = 5\<close>, \<open>e = 2\<close>, \<open>z0 = 4\<close>, \<open>z = 4\<close> and \<open>t = 1\<close>.  The call
  \<open>buildDigitPolynomial(result, 5, 2)\<close> returns \<open>x^5 + 20 x^3 + 5 x\<close>, whose value at \<open>4\<close> is
  \<open>24\<close> modulo \<open>25\<close>: the residue \<open>- 1\<close> of the table, which line 85 starts at
  \<open>- \<lfloor>p/2\<rfloor>\<close>, and not the \<open>z0 = 4\<close> of the comments at lines 70 to 74 and 82, which
  take \<open>0 \<le> z0 < p\<close> and \<open>x = 0, 1, \<dots>, p - 1\<close>.
\<close>

theorem buildDigitPolynomial_not_plain_residues:
  "buildDigitPolynomial [] 5 2 = Some (Inr [0, 5, 0, 20, 0, 1])
   \<and> (0::int) \<le> 4 \<and> (4::int) < 5 \<and> (5::int) dvd (4 - 4) \<and> (5::int) ^ 1 dvd (4 - 4)
   \<and> eval [0, 5, 0, 20, 0, 1] 4 mod 5 ^ (1 + 1) = 24
   \<and> \<not> (5::int) ^ (1 + 1) dvd (eval [0, 5, 0, 20, 0, 1] 4 - 4)"
  by code_simp

section \<open>Frame of the loops\<close>

lemma inner_loop_0 [simp]: "inner_loop ops p x2p 0 s = s"
  by (simp add: inner_loop_def)

lemma inner_loop_Suc [simp]:
  "inner_loop ops p x2p (Suc i) s = inner_body ops p x2p (inner_loop ops p x2p i s) i"
  by (simp add: inner_loop_def)

lemma outer_loop_0 [simp]: "outer_loop ops p x2p sc 0 s = s"
  by (simp add: outer_loop_def)

lemma outer_loop_Suc [simp]:
  "outer_loop ops p x2p sc (Suc i) s = outer_body ops p x2p sc (outer_loop ops p x2p sc i s) i"
  by (simp add: outer_loop_def)

lemma copy_loop_0 [simp]: "copy_loop 0 s = s"
  by (simp add: copy_loop_def)

lemma copy_loop_Suc [simp]:
  "copy_loop (Suc i) s = (copy_loop i s)\<lparr>digits := (digits (copy_loop i s))[i := w (copy_loop i s) ! i]\<rparr>"
  by (simp add: copy_loop_def)

lemma inner_body_frame [simp]:
  "c_at (inner_body ops p x2p s j) = c_at s"
  "digits (inner_body ops p x2p s j) = digits s"
  "length (w (inner_body ops p x2p s j)) = length (w s)"
  by (simp_all add: inner_body_def power_step_def Let_def)

lemma c_val_Outside: "c_at s = Outside v \<Longrightarrow> c_val s = v"
  by (simp add: c_val_def)

lemma inner_loop_frame [simp]:
  "c_at (inner_loop ops p x2p i s) = c_at s"
  "digits (inner_loop ops p x2p i s) = digits s"
  "length (w (inner_loop ops p x2p i s)) = length (w s)"
  by (induction i) simp_all

lemma outer_body_frame [simp]:
  "c_at (outer_body ops p x2p sc s i) = c_at s"
  "length (digits (outer_body ops p x2p sc s i)) = length (digits s)"
  "length (w (outer_body ops p x2p sc s i)) = length (w s)"
  by (simp_all add: outer_body_def Let_def)

lemma outer_loop_frame [simp]:
  "c_at (outer_loop ops p x2p sc r s) = c_at s"
  "length (digits (outer_loop ops p x2p sc r s)) = length (digits s)"
  "length (w (outer_loop ops p x2p sc r s)) = length (w s)"
  by (induction r) simp_all

lemma copy_loop_frame [simp]:
  "c_at (copy_loop r s) = c_at s"
  "length (digits (copy_loop r s)) = length (digits s)"
  "w (copy_loop r s) = w s"
  "tmp (copy_loop r s) = tmp s"
  "calls (copy_loop r s) = calls s"
  by (induction r) simp_all

subsection \<open>The loops in closed form\<close>

lemma inner_body_w_nth:
  "j < length (w s) \<Longrightarrow>
   w (inner_body ops p x2p s i) ! j = (if j = i then pth_power ops p x2p (w s ! j) else w s ! j)"
  by (simp add: inner_body_def power_step_def Let_def nth_list_update)

lemma inner_loop_w_nth:
  "j < length (w s) \<Longrightarrow>
   w (inner_loop ops p x2p i s) ! j = (if j < i then pth_power ops p x2p (w s ! j) else w s ! j)"
  by (induction i) (auto simp add: inner_body_w_nth less_Suc_eq)


lemma powered_0 [simp]: "powered ops p x2p 0 ws = ws"
  by (simp add: powered_def)

lemma length_powered [simp]: "length (powered ops p x2p i ws) = length ws"
  by (simp add: powered_def)

lemma powered_nth:
  "j < length ws \<Longrightarrow>
   powered ops p x2p i ws ! j = (if j < i then pth_power ops p x2p (ws ! j) else ws ! j)"
  by (auto simp add: powered_def nth_append)

lemma powered_Suc:
  assumes "i < length ws"
  shows "(powered ops p x2p i ws)[i := pth_power ops p x2p (powered ops p x2p i ws ! i)]
           = powered ops p x2p (Suc i) ws"
proof (rule nth_equalityI)
  show "length ((powered ops p x2p i ws)[i := pth_power ops p x2p (powered ops p x2p i ws ! i)])
          = length (powered ops p x2p (Suc i) ws)" by simp
next
  fix j
  assume "j < length ((powered ops p x2p i ws)[i := pth_power ops p x2p (powered ops p x2p i ws ! i)])"
  then have j: "j < length ws" by simp
  show "(powered ops p x2p i ws)[i := pth_power ops p x2p (powered ops p x2p i ws ! i)] ! j
          = powered ops p x2p (Suc i) ws ! j"
    using j assms by (auto simp add: nth_list_update powered_nth less_Suc_eq)
qed

lemma inner_loop_eq:
  "i \<le> length (w s) \<Longrightarrow>
   inner_loop ops p x2p i s =
     s\<lparr>w := powered ops p x2p i (w s), tmp := peeled ops p x2p (w s) (tmp s) i,
       calls := calls s @ evals p x2p i\<rparr>"
proof (induction i)
  case 0
  show ?case by (simp add: evals_def)
next
  case (Suc i)
  then have i: "i < length (w s)" by simp
  have nth: "powered ops p x2p (Suc i) (w s) ! i = pth_power ops p x2p (w s ! i)"
    using i by (simp add: powered_nth)
  show ?case
    using Suc.IH i powered_Suc[OF i, of ops p x2p] nth
    by (simp add: inner_body_def power_step_def Let_def evals_def replicate_append_same)
qed

lemma outer_body_fields:
  assumes "i < length (w s)"
  shows "w (outer_body ops p x2p sc s i)
           = (powered ops p x2p i (w s))[i := peeled ops p x2p (w s) (c_val s) i]"
    and "tmp (outer_body ops p x2p sc s i) = peeled ops p x2p (w s) (c_val s) i"
    and "calls (outer_body ops p x2p sc s i) = calls s @ evals p x2p i"
    and "digits (outer_body ops p x2p sc s i)
           = (if sc then (digits s)[i := peeled ops p x2p (w s) (c_val s) i] else digits s)"
  using assms by (simp_all add: outer_body_def Let_def inner_loop_eq)

lemma outer_loop_locals:
  assumes "r \<le> length (w s)" and "w s' = w s" and "calls s' = calls s"
    and "c_at s = Outside v" and "c_at s' = Outside v"
  shows "w (outer_loop ops p x2p sc r s') = w (outer_loop ops p x2p sc' r s)
       \<and> calls (outer_loop ops p x2p sc r s') = calls (outer_loop ops p x2p sc' r s)"
  using assms(1)
proof (induction r)
  case 0
  show ?case using assms by simp
next
  case (Suc r)
  then have IH: "w (outer_loop ops p x2p sc r s') = w (outer_loop ops p x2p sc' r s)"
    "calls (outer_loop ops p x2p sc r s') = calls (outer_loop ops p x2p sc' r s)" by simp_all
  have l: "r < length (w (outer_loop ops p x2p sc r s'))" "r < length (w (outer_loop ops p x2p sc' r s))"
    using Suc.prems assms(2) by simp_all
  have cv: "c_val (outer_loop ops p x2p sc r s') = v" "c_val (outer_loop ops p x2p sc' r s) = v"
    using assms(4,5) by (simp_all add: c_val_def)
  show ?case
    using IH cv by (simp add: outer_body_fields(1,3)[OF l(1)] outer_body_fields(1,3)[OF l(2)])
qed

lemma outer_loop_w_shortCut:
  "r \<le> length (w s) \<Longrightarrow> c_at s = Outside v \<Longrightarrow>
   w (outer_loop ops p x2p True r s) = w (outer_loop ops p x2p False r s)"
  using outer_loop_locals[of r s s v ops p x2p True False] by simp

lemma outer_body_shortCut_nth:
  assumes "i < length (w s)" and "length (digits s) = length (w s)" and "j < length (w s)"
  shows "w (outer_body ops p x2p True s i) ! j =
           (if j < i then pth_power ops p x2p (w s ! j)
            else if j = i then digits (outer_body ops p x2p True s i) ! i else w s ! j)"
    and "j \<noteq> i \<Longrightarrow> digits (outer_body ops p x2p True s i) ! j = digits s ! j"
  using assms by (simp_all add: outer_body_def Let_def nth_list_update inner_loop_w_nth)

text \<open>After \<open>k\<close> rounds with \<open>shortCut\<close> set, \<open>w[j]\<close> is \<open>digits[j]\<close> powered \<open>k - 1 - j\<close> times.\<close>

lemma outer_loop_shortCut_inv:
  assumes "k \<le> length (w s)" and "length (digits s) = length (w s)" and "j < k"
  shows "w (outer_loop ops p x2p True k s) ! j
           = (pth_power ops p x2p ^^ (k - 1 - j)) (digits (outer_loop ops p x2p True k s) ! j)"
  using assms
proof (induction k)
  case 0
  then show ?case by simp
next
  case (Suc k)
  let ?s = "outer_loop ops p x2p True k s"
  have len: "k < length (w ?s)" "length (digits ?s) = length (w ?s)" "j < length (w ?s)"
    using Suc.prems by simp_all
  show ?case
  proof (cases "j = k")
    case True
    then show ?thesis using outer_body_shortCut_nth(1)[OF len, of ops p x2p] by simp
  next
    case False
    then have jk: "j < k" using Suc.prems by simp
    have "w (outer_body ops p x2p True ?s k) ! j = pth_power ops p x2p (w ?s ! j)"
      using outer_body_shortCut_nth(1)[OF len, of ops p x2p] jk by simp
    moreover have "digits (outer_body ops p x2p True ?s k) ! j = digits ?s ! j"
      using outer_body_shortCut_nth(2)[OF len, of ops p x2p] False by simp
    moreover have "w ?s ! j = (pth_power ops p x2p ^^ (k - 1 - j)) (digits ?s ! j)"
      using Suc.IH Suc.prems jk by simp
    moreover have "Suc k - 1 - j = Suc (k - 1 - j)" using jk by simp
    ultimately show ?thesis by simp
  qed
qed

lemma copy_loop_digits_nth:
  "j < r \<Longrightarrow> j < length (digits s) \<Longrightarrow> digits (copy_loop r s) ! j = w s ! j"
  by (induction r) (auto simp add: nth_list_update less_Suc_eq)

lemma length_resize [simp]: "length (resize v n a) = n"
  by (simp add: resize_def)

lemma build_x2p_returns: "\<exists>f. build_x2p p r = Some (Inr f)"
  using buildDigitPolynomial_returns[of "[]" p r] by (simp add: build_x2p_def)

lemma extractDigits_unfold:
  assumes "build_x2p (getP ops c) (clamp_r ops c r) = Some (Inr x2p)" and "0 \<le> clamp_r ops c r"
  shows "extractDigits ops digits0 spare (Outside c) r True =
           Some (Inr (outer_loop ops (getP ops c) x2p True (nat (clamp_r ops c r)) (init_state ops digits0 c r)))"
    and "extractDigits ops digits0 spare (Outside c) r False =
           Some (Inr (copy_loop (nat (clamp_r ops c r))
             (outer_loop ops (getP ops c) x2p False (nat (clamp_r ops c r)) (init_state ops digits0 c r))))"
  using assms
  by (simp_all add: extractDigits_def entry_value_def invalidated_def Let_def init_state_def)

lemma init_state_simps [simp]:
  "length (w (init_state ops digits0 c r)) = nat (clamp_r ops c r)"
  "length (digits (init_state ops digits0 c r)) = nat (clamp_r ops c r)"
  "c_at (init_state ops digits0 c r) = Outside c"
  by (simp_all add: init_state_def)

text \<open>
  The two modes after the loops, with \<open>c\<close> outside \<open>digits\<close>: \<open>w\<close> is the same, and \<open>digits\<close>
  differs by the powerings.
\<close>

lemma loops_modes_related:
  assumes "n \<le> length (w s)" and "length (digits s) = length (w s)" and "j < n"
    and "c_at s = Outside v"
  shows "digits (copy_loop n (outer_loop ops p x2p False n s)) ! j
           = (pth_power ops p x2p ^^ (n - 1 - j)) (digits (outer_loop ops p x2p True n s) ! j)"
proof -
  have "digits (copy_loop n (outer_loop ops p x2p False n s)) ! j = w (outer_loop ops p x2p False n s) ! j"
    using assms by (simp add: copy_loop_digits_nth)
  also have "\<dots> = w (outer_loop ops p x2p True n s) ! j"
    using assms(1,4) by (simp add: outer_loop_w_shortCut)
  also have "\<dots> = (pth_power ops p x2p ^^ (n - 1 - j)) (digits (outer_loop ops p x2p True n s) ! j)"
    using assms by (simp add: outer_loop_shortCut_inv)
  finally show ?thesis .
qed

text \<open>
  In the statements that follow, the input ciphertext is an object of the caller's outside
  the vector \<open>digits\<close>, written \<open>Outside c\<close>, and the unused capacity \<open>spare\<close> of the vector
  is arbitrary.  A call whose \<open>c\<close> is an element of \<open>digits\<close> is treated separately below.
\<close>

text \<open>
  Claim C10.  Both modes return (when \<open>effectiveR(c)\<close> is not negative), and for every index
  \<open>j\<close> below the clamped digit count \<open>r\<close> the digit \<open>j\<close> of the run without \<open>shortCut\<close> is
  the digit \<open>j\<close> of the run with \<open>shortCut\<close> after \<open>r - 1 - j\<close> applications of the
  \<open>p\<close>-th-power operation of lines 54 to 56 (none for \<open>j = r - 1\<close>, where the two
  ciphertexts are the same).
\<close>

theorem extractDigits_modes_related:
  assumes "0 \<le> effectiveR ops c"
  shows "\<exists>sT sF x2p.
           extractDigits ops digits0 spare (Outside c) r True = Some (Inr sT)
         \<and> extractDigits ops digits0 spare (Outside c) r False = Some (Inr sF)
         \<and> build_x2p (getP ops c) (clamp_r ops c r) = Some (Inr x2p)
         \<and> (\<forall>j < nat (clamp_r ops c r).
               digits sF ! j
                 = (pth_power ops (getP ops c) x2p ^^ (nat (clamp_r ops c r) - 1 - j)) (digits sT ! j))"
proof -
  let ?p = "getP ops c" and ?n = "nat (clamp_r ops c r)" and ?s0 = "init_state ops digits0 c r"
  obtain x2p where b: "build_x2p ?p (clamp_r ops c r) = Some (Inr x2p)"
    using build_x2p_returns by blast
  have r0: "0 \<le> clamp_r ops c r" using assms by (simp add: clamp_r_def Let_def)
  have "digits (copy_loop ?n (outer_loop ops ?p x2p False ?n ?s0)) ! j
          = (pth_power ops ?p x2p ^^ (?n - 1 - j)) (digits (outer_loop ops ?p x2p True ?n ?s0) ! j)"
    if "j < ?n" for j
    using loops_modes_related[of ?n ?s0 j c ops ?p x2p] that by simp
  then show ?thesis
    using extractDigits_unfold[OF b r0, of digits0 spare] b by blast
qed

theorem extractDigits_modes_related_witness:
  "0 \<le> effectiveR (sim_ops 5) (encrypt 5 2 8)
   \<and> extractDigits (sim_ops 5) [] 0 (Outside (encrypt 5 2 8)) 0 True =
       Some (Inr \<lparr>c_at = Outside \<lparr>slot = 8, ptxtExp = 2\<rparr>,
                   digits = [\<lparr>slot = 8, ptxtExp = 2\<rparr>, \<lparr>slot = 2, ptxtExp = 1\<rparr>],
                   w = [\<lparr>slot = 23, ptxtExp = 2\<rparr>, \<lparr>slot = 2, ptxtExp = 1\<rparr>],
                   tmp = \<lparr>slot = 2, ptxtExp = 1\<rparr>,
                   calls = [BuildCall 5 2, PolyEvalCall [0, 5, 0, 20, 0, 1]]\<rparr>)
   \<and> extractDigits (sim_ops 5) [] 0 (Outside (encrypt 5 2 8)) 0 False =
       Some (Inr \<lparr>c_at = Outside \<lparr>slot = 8, ptxtExp = 2\<rparr>,
                   digits = [\<lparr>slot = 23, ptxtExp = 2\<rparr>, \<lparr>slot = 2, ptxtExp = 1\<rparr>],
                   w = [\<lparr>slot = 23, ptxtExp = 2\<rparr>, \<lparr>slot = 2, ptxtExp = 1\<rparr>],
                   tmp = \<lparr>slot = 2, ptxtExp = 1\<rparr>,
                   calls = [BuildCall 5 2, PolyEvalCall [0, 5, 0, 20, 0, 1]]\<rparr>)
   \<and> build_x2p 5 2 = Some (Inr [0, 5, 0, 20, 0, 1])
   \<and> \<lparr>slot = 23, ptxtExp = 2\<rparr>
       = (pth_power (sim_ops 5) 5 [0, 5, 0, 20, 0, 1] ^^ (2 - 1 - 0)) \<lparr>slot = 8, ptxtExp = 2\<rparr>
   \<and> \<lparr>slot = 2, ptxtExp = 1\<rparr>
       = (pth_power (sim_ops 5) 5 [0, 5, 0, 20, 0, 1] ^^ (2 - 1 - 1)) \<lparr>slot = 2, ptxtExp = 1\<rparr>"
proof -
  have h: "0 \<le> effectiveR (sim_ops 5) (encrypt 5 2 8)" by (simp add: sim_ops_def)
  have t: "extractDigits (sim_ops 5) [] 0 (Outside (encrypt 5 2 8)) 0 True =
       Some (Inr \<lparr>c_at = Outside \<lparr>slot = 8, ptxtExp = 2\<rparr>,
                   digits = [\<lparr>slot = 8, ptxtExp = 2\<rparr>, \<lparr>slot = 2, ptxtExp = 1\<rparr>],
                   w = [\<lparr>slot = 23, ptxtExp = 2\<rparr>, \<lparr>slot = 2, ptxtExp = 1\<rparr>],
                   tmp = \<lparr>slot = 2, ptxtExp = 1\<rparr>,
                   calls = [BuildCall 5 2, PolyEvalCall [0, 5, 0, 20, 0, 1]]\<rparr>)" by code_simp
  have f: "extractDigits (sim_ops 5) [] 0 (Outside (encrypt 5 2 8)) 0 False =
       Some (Inr \<lparr>c_at = Outside \<lparr>slot = 8, ptxtExp = 2\<rparr>,
                   digits = [\<lparr>slot = 23, ptxtExp = 2\<rparr>, \<lparr>slot = 2, ptxtExp = 1\<rparr>],
                   w = [\<lparr>slot = 23, ptxtExp = 2\<rparr>, \<lparr>slot = 2, ptxtExp = 1\<rparr>],
                   tmp = \<lparr>slot = 2, ptxtExp = 1\<rparr>,
                   calls = [BuildCall 5 2, PolyEvalCall [0, 5, 0, 20, 0, 1]]\<rparr>)" by code_simp
  have b: "build_x2p 5 2 = Some (Inr [0, 5, 0, 20, 0, 1])" by code_simp
  have n: "clamp_r (sim_ops 5) (encrypt 5 2 8) 0 = 2" by code_simp
  have g: "getP (sim_ops 5) (encrypt 5 2 8) = 5" by (simp add: sim_ops_def)
  from extractDigits_modes_related[OF h, of "[]" 0 0] t f b n g
  have "\<forall>j<2. [\<lparr>slot = 23, ptxtExp = 2\<rparr>, \<lparr>slot = 2, ptxtExp = 1\<rparr>] ! j
          = (pth_power (sim_ops 5) 5 [0, 5, 0, 20, 0, 1] ^^ (2 - 1 - j))
              ([\<lparr>slot = 8, ptxtExp = 2\<rparr>, \<lparr>slot = 2, ptxtExp = 1\<rparr>] ! j)"
    by simp
  then have a: "\<And>j. j < 2 \<Longrightarrow> [\<lparr>slot = 23, ptxtExp = 2\<rparr>, \<lparr>slot = 2, ptxtExp = 1\<rparr>] ! j
          = (pth_power (sim_ops 5) 5 [0, 5, 0, 20, 0, 1] ^^ (2 - 1 - j))
              ([\<lparr>slot = 8, ptxtExp = 2\<rparr>, \<lparr>slot = 2, ptxtExp = 1\<rparr>] ! j)"
    by blast
  have "(0::nat) < 2" and "(1::nat) < 2" by simp_all
  from a[OF this(1)] a[OF this(2)] show ?thesis using h t f b by simp
qed

text \<open>
  Claim C9, as the code has it.  In a call whose \<open>c\<close> is an object outside the vector
  \<open>digits\<close>, that object is after the call what it was before: every write of the two loops
  and of the final copy goes to \<open>tmp\<close>, \<open>w\<close> or \<open>digits\<close>.  Such a call returns when
  \<open>effectiveR(c)\<close> is not negative.  In a call whose \<open>c\<close> is the element \<open>digits[k]\<close> and
  that returns at least one digit without \<open>shortCut\<close>, the copy of line 65 has stored
  \<open>w[k]\<close> in \<open>c\<close>.
\<close>

theorem extractDigits_input_unchanged:
  "(\<forall>s. extractDigits ops digits0 spare (Outside v) r shortCut = Some (Inr s) \<longrightarrow> c_val s = v)
   \<and> (0 \<le> effectiveR ops v \<longrightarrow>
        (\<exists>s. extractDigits ops digits0 spare (Outside v) r shortCut = Some (Inr s) \<and> c_val s = v))
   \<and> (\<forall>k s. extractDigits ops digits0 spare (Elem k) r False = Some (Inr s) \<and> digits s \<noteq> []
          \<longrightarrow> c_val s = w s ! k)"
proof -
  have frame: "c_val s = v"
    if "extractDigits ops digits0 spare (Outside v) r shortCut = Some (Inr s)" for s
  proof -
    have "c_at s = Outside v"
      using that
      by (auto simp add: extractDigits_def entry_value_def Let_def
          split: option.splits sum.splits if_splits)
    then show ?thesis by (rule c_val_Outside)
  qed
  have ret: "\<exists>s. extractDigits ops digits0 spare (Outside v) r shortCut = Some (Inr s)"
    if "0 \<le> effectiveR ops v"
  proof -
    obtain x2p where b: "build_x2p (getP ops v) (clamp_r ops v r) = Some (Inr x2p)"
      using build_x2p_returns by blast
    have r0: "0 \<le> clamp_r ops v r" using that by (simp add: clamp_r_def Let_def)
    show ?thesis
      using extractDigits_unfold[OF b r0, of digits0 spare] by (cases shortCut) simp_all
  qed
  have elem: "c_val s = w s ! k"
    if run: "extractDigits ops digits0 spare (Elem k) r False = Some (Inr s)"
      and ne: "digits s \<noteq> []" for k s
  proof -
    obtain c0 where c0: "entry_value digits0 (Elem k) = Some c0"
      using run by (cases "entry_value digits0 (Elem k)") (simp_all add: extractDigits_def)
    let ?n = "nat (clamp_r ops c0 r)"
    obtain x2p where b: "build_x2p (getP ops c0) (clamp_r ops c0 r) = Some (Inr x2p)"
      using build_x2p_returns by blast
    define s0 where "s0 = \<lparr>c_at = Elem k, digits = resize digits0 ?n (newCtxt ops c0),
        w = replicate ?n (newCtxt ops c0), tmp = newCtxt ops c0,
        calls = (if getP ops c0 > 3 then [BuildCall (getP ops c0) (clamp_r ops c0 r)] else [])\<rparr>"
    define s1 where "s1 = outer_loop ops (getP ops c0) x2p False ?n s0"
    have s: "s = copy_loop ?n s1"
      and ok: "\<not> (0 < clamp_r ops c0 r \<and> invalidated (Elem k) digits0 spare ?n)"
      using run c0 b
      by (auto simp add: extractDigits_def Let_def s0_def s1_def split: if_splits)
    have len: "length (digits s1) = ?n" by (simp add: s1_def s0_def)
    then have "length (digits s) = ?n" by (simp add: s)
    then have pos: "0 < clamp_r ops c0 r" using ne by (cases "?n") auto
    then have k: "k < ?n" using ok by (simp add: invalidated_def)
    have "c_at s = Elem k" by (simp add: s s1_def s0_def)
    then have "c_val s = digits s ! k" by (simp add: c_val_def)
    also have "\<dots> = w s1 ! k" using k len by (simp add: s copy_loop_digits_nth)
    also have "\<dots> = w s ! k" by (simp add: s)
    finally show ?thesis .
  qed
  show ?thesis using frame ret elem by blast
qed

theorem extractDigits_input_unchanged_witness:
  "extractDigits (sim_ops 5) [] 0 (Outside (encrypt 5 2 8)) 0 False =
     Some (Inr \<lparr>c_at = Outside \<lparr>slot = 8, ptxtExp = 2\<rparr>,
                 digits = [\<lparr>slot = 23, ptxtExp = 2\<rparr>, \<lparr>slot = 2, ptxtExp = 1\<rparr>],
                 w = [\<lparr>slot = 23, ptxtExp = 2\<rparr>, \<lparr>slot = 2, ptxtExp = 1\<rparr>],
                 tmp = \<lparr>slot = 2, ptxtExp = 1\<rparr>,
                 calls = [BuildCall 5 2, PolyEvalCall [0, 5, 0, 20, 0, 1]]\<rparr>)
   \<and> 0 \<le> effectiveR (sim_ops 5) (encrypt 5 2 8)
   \<and> c_val \<lparr>c_at = Outside \<lparr>slot = 8, ptxtExp = 2\<rparr>,
            digits = [\<lparr>slot = 23, ptxtExp = 2\<rparr>, \<lparr>slot = 2, ptxtExp = 1\<rparr>],
            w = [\<lparr>slot = 23, ptxtExp = 2\<rparr>, \<lparr>slot = 2, ptxtExp = 1\<rparr>],
            tmp = \<lparr>slot = 2, ptxtExp = 1\<rparr>,
            calls = [BuildCall 5 2, PolyEvalCall [0, 5, 0, 20, 0, 1]]\<rparr> = encrypt 5 2 8
   \<and> extractDigits (sim_ops 2) [\<lparr>slot = 3, ptxtExp = 2\<rparr>, \<lparr>slot = 0, ptxtExp = 2\<rparr>] 0 (Elem 0) 0 False =
       Some (Inr \<lparr>c_at = Elem 0,
                   digits = [\<lparr>slot = 1, ptxtExp = 2\<rparr>, \<lparr>slot = 1, ptxtExp = 1\<rparr>],
                   w = [\<lparr>slot = 1, ptxtExp = 2\<rparr>, \<lparr>slot = 1, ptxtExp = 1\<rparr>],
                   tmp = \<lparr>slot = 1, ptxtExp = 1\<rparr>, calls = []\<rparr>)
   \<and> [\<lparr>slot = 1, ptxtExp = 2\<rparr>, \<lparr>slot = 1, ptxtExp = (1::nat)\<rparr>] \<noteq> []
   \<and> c_val \<lparr>c_at = Elem 0,
            digits = [\<lparr>slot = 1, ptxtExp = 2\<rparr>, \<lparr>slot = 1, ptxtExp = 1\<rparr>],
            w = [\<lparr>slot = 1, ptxtExp = 2\<rparr>, \<lparr>slot = 1, ptxtExp = 1\<rparr>],
            tmp = \<lparr>slot = 1, ptxtExp = 1\<rparr>, calls = []\<rparr>
       = [\<lparr>slot = 1, ptxtExp = 2\<rparr>, \<lparr>slot = 1, ptxtExp = 1\<rparr>] ! 0"
proof -
  have run: "extractDigits (sim_ops 5) [] 0 (Outside (encrypt 5 2 8)) 0 False =
     Some (Inr \<lparr>c_at = Outside \<lparr>slot = 8, ptxtExp = 2\<rparr>,
                 digits = [\<lparr>slot = 23, ptxtExp = 2\<rparr>, \<lparr>slot = 2, ptxtExp = 1\<rparr>],
                 w = [\<lparr>slot = 23, ptxtExp = 2\<rparr>, \<lparr>slot = 2, ptxtExp = 1\<rparr>],
                 tmp = \<lparr>slot = 2, ptxtExp = 1\<rparr>,
                 calls = [BuildCall 5 2, PolyEvalCall [0, 5, 0, 20, 0, 1]]\<rparr>)"
    by code_simp
  have g: "0 \<le> effectiveR (sim_ops 5) (encrypt 5 2 8)" by (simp add: sim_ops_def)
  have al: "extractDigits (sim_ops 2) [\<lparr>slot = 3, ptxtExp = 2\<rparr>, \<lparr>slot = 0, ptxtExp = 2\<rparr>] 0 (Elem 0) 0 False =
       Some (Inr \<lparr>c_at = Elem 0,
                   digits = [\<lparr>slot = 1, ptxtExp = 2\<rparr>, \<lparr>slot = 1, ptxtExp = 1\<rparr>],
                   w = [\<lparr>slot = 1, ptxtExp = 2\<rparr>, \<lparr>slot = 1, ptxtExp = 1\<rparr>],
                   tmp = \<lparr>slot = 1, ptxtExp = 1\<rparr>, calls = []\<rparr>)"
    by code_simp
  have out: "\<And>s. extractDigits (sim_ops 5) [] 0 (Outside (encrypt 5 2 8)) 0 False = Some (Inr s)
          \<Longrightarrow> c_val s = encrypt 5 2 8"
    using extractDigits_input_unchanged[of "sim_ops 5" "[]" 0 "encrypt 5 2 8" 0 False] by blast
  have ali: "\<And>s. extractDigits (sim_ops 2) [\<lparr>slot = 3, ptxtExp = 2\<rparr>, \<lparr>slot = 0, ptxtExp = 2\<rparr>] 0 (Elem 0) 0 False
              = Some (Inr s) \<Longrightarrow> digits s \<noteq> [] \<Longrightarrow> c_val s = w s ! 0"
    using extractDigits_input_unchanged[of "sim_ops 2"
        "[\<lparr>slot = 3, ptxtExp = 2\<rparr>, \<lparr>slot = 0, ptxtExp = 2\<rparr>]" 0 "encrypt 2 2 3" 0 False]
    by blast
  have ne: "digits \<lparr>c_at = Elem 0,
                   digits = [\<lparr>slot = 1, ptxtExp = 2\<rparr>, \<lparr>slot = 1, ptxtExp = 1\<rparr>],
                   w = [\<lparr>slot = 1, ptxtExp = 2\<rparr>, \<lparr>slot = 1, ptxtExp = 1\<rparr>],
                   tmp = \<lparr>slot = 1, ptxtExp = 1\<rparr>, calls = []\<rparr> \<noteq> []" by simp
  show ?thesis using out[OF run] ali[OF al ne] run g al by simp
qed

text \<open>
  With \<open>p = 2\<close> and \<open>c\<close> the element \<open>digits[0]\<close> of a vector of two ciphertexts modulo \<open>4\<close> (no
  reallocation: the vector keeps its size), \<open>c\<close> holds \<open>3\<close> before the call and \<open>1\<close> after it:
  line 65 has assigned \<open>w[0]\<close>, the square of \<open>3\<close>, to \<open>digits[0]\<close>.  With \<open>shortCut\<close> and
  \<open>c\<close> the element \<open>digits[1]\<close>, line 62 overwrites \<open>c\<close> in the second round.
\<close>

theorem extractDigits_overwrites_aliased_input:
  "entry_value [\<lparr>slot = 3, ptxtExp = 2\<rparr>, \<lparr>slot = 0, ptxtExp = 2\<rparr>] (Elem 0) = Some \<lparr>slot = 3, ptxtExp = 2\<rparr>
   \<and> extractDigits (sim_ops 2) [\<lparr>slot = 3, ptxtExp = 2\<rparr>, \<lparr>slot = 0, ptxtExp = 2\<rparr>] 0 (Elem 0) 0 False =
       Some (Inr \<lparr>c_at = Elem 0,
                   digits = [\<lparr>slot = 1, ptxtExp = 2\<rparr>, \<lparr>slot = 1, ptxtExp = 1\<rparr>],
                   w = [\<lparr>slot = 1, ptxtExp = 2\<rparr>, \<lparr>slot = 1, ptxtExp = 1\<rparr>],
                   tmp = \<lparr>slot = 1, ptxtExp = 1\<rparr>, calls = []\<rparr>)
   \<and> c_val \<lparr>c_at = Elem 0,
            digits = [\<lparr>slot = 1, ptxtExp = 2\<rparr>, \<lparr>slot = 1, ptxtExp = 1\<rparr>],
            w = [\<lparr>slot = 1, ptxtExp = 2\<rparr>, \<lparr>slot = 1, ptxtExp = 1\<rparr>],
            tmp = \<lparr>slot = 1, ptxtExp = 1\<rparr>, calls = []\<rparr> = \<lparr>slot = 1, ptxtExp = 2\<rparr>
   \<and> \<lparr>slot = 1, ptxtExp = 2\<rparr> \<noteq> \<lparr>slot = 3, ptxtExp = 2\<rparr>
   \<and> entry_value [\<lparr>slot = 0, ptxtExp = 2\<rparr>, \<lparr>slot = 3, ptxtExp = 2\<rparr>] (Elem 1) = Some \<lparr>slot = 3, ptxtExp = 2\<rparr>
   \<and> extractDigits (sim_ops 2) [\<lparr>slot = 0, ptxtExp = 2\<rparr>, \<lparr>slot = 3, ptxtExp = 2\<rparr>] 0 (Elem 1) 0 True =
       Some (Inr \<lparr>c_at = Elem 1,
                   digits = [\<lparr>slot = 3, ptxtExp = 2\<rparr>, \<lparr>slot = 1, ptxtExp = 1\<rparr>],
                   w = [\<lparr>slot = 1, ptxtExp = 2\<rparr>, \<lparr>slot = 1, ptxtExp = 1\<rparr>],
                   tmp = \<lparr>slot = 1, ptxtExp = 1\<rparr>, calls = []\<rparr>)
   \<and> c_val \<lparr>c_at = Elem 1,
            digits = [\<lparr>slot = 3, ptxtExp = 2\<rparr>, \<lparr>slot = 1, ptxtExp = 1\<rparr>],
            w = [\<lparr>slot = 1, ptxtExp = 2\<rparr>, \<lparr>slot = 1, ptxtExp = 1\<rparr>],
            tmp = \<lparr>slot = 1, ptxtExp = 1\<rparr>, calls = []\<rparr> = \<lparr>slot = 1, ptxtExp = 1\<rparr>
   \<and> \<lparr>slot = 1, ptxtExp = 1\<rparr> \<noteq> \<lparr>slot = 3, ptxtExp = 2\<rparr>"
  by code_simp

text \<open>
  Claim C4.  A requested digit count that is not positive, or that exceeds
  \<open>effectiveR(c)\<close>, gives the same result as the request \<open>effectiveR(c)\<close>: the same
  returned state, with \<open>effectiveR(c)\<close> digits, and no error (the call returns whenever
  \<open>effectiveR(c)\<close> is not negative).
\<close>

theorem extractDigits_clamps:
  assumes "r \<le> 0 \<or> r > effectiveR ops c"
  shows "extractDigits ops digits0 spare (Outside c) r shortCut
           = extractDigits ops digits0 spare (Outside c) (effectiveR ops c) shortCut
       \<and> (0 \<le> effectiveR ops c \<longrightarrow>
            (\<exists>s. extractDigits ops digits0 spare (Outside c) r shortCut = Some (Inr s)
               \<and> length (digits s) = nat (effectiveR ops c)))"
proof -
  have cl: "clamp_r ops c r = effectiveR ops c" "clamp_r ops c (effectiveR ops c) = effectiveR ops c"
    using assms by (auto simp add: clamp_r_def Let_def)
  have same: "extractDigits ops digits0 spare (Outside c) r shortCut
      = extractDigits ops digits0 spare (Outside c) (effectiveR ops c) shortCut"
    by (simp add: extractDigits_def entry_value_def cl)
  have "\<exists>s. extractDigits ops digits0 spare (Outside c) r shortCut = Some (Inr s)
      \<and> length (digits s) = nat (effectiveR ops c)" if "0 \<le> effectiveR ops c"
  proof -
    obtain x2p where b: "build_x2p (getP ops c) (clamp_r ops c r) = Some (Inr x2p)"
      using build_x2p_returns by blast
    have r0: "0 \<le> clamp_r ops c r" using that cl by simp
    show ?thesis
      using extractDigits_unfold[OF b r0, of digits0 spare] cl by (cases shortCut) simp_all
  qed
  then show ?thesis using same by blast
qed

theorem extractDigits_clamps_witness:
  "((7::int) \<le> 0 \<or> 7 > effectiveR (sim_ops 2) (encrypt 2 3 6))
   \<and> 0 \<le> effectiveR (sim_ops 2) (encrypt 2 3 6)
   \<and> extractDigits (sim_ops 2) [] 0 (Outside (encrypt 2 3 6)) 7 True
       = extractDigits (sim_ops 2) [] 0 (Outside (encrypt 2 3 6)) (effectiveR (sim_ops 2) (encrypt 2 3 6)) True
   \<and> (\<exists>s. extractDigits (sim_ops 2) [] 0 (Outside (encrypt 2 3 6)) 7 True = Some (Inr s)
          \<and> length (digits s) = nat (effectiveR (sim_ops 2) (encrypt 2 3 6)))"
proof -
  have h: "(7::int) \<le> 0 \<or> 7 > effectiveR (sim_ops 2) (encrypt 2 3 6)"
    and g: "0 \<le> effectiveR (sim_ops 2) (encrypt 2 3 6)"
    by (simp_all add: sim_ops_def encrypt_def)
  show ?thesis
    using h g extractDigits_clamps[OF h, of "[]" 0 True] by blast
qed

subsection \<open>Calls to the builder and to the polynomial evaluation\<close>

lemma outer_loop_calls:
  "r \<le> length (w s) \<Longrightarrow>
   calls (outer_loop ops p x2p sc r s) = calls s @ concat (map (evals p x2p) [0..<r])"
proof (induction r)
  case 0
  show ?case by simp
next
  case (Suc r)
  then have "r < length (w (outer_loop ops p x2p sc r s))" by simp
  from outer_body_fields(3)[OF this] Suc show ?case by simp
qed

lemma in_evals:
  "a \<in> set (concat (map (evals p x2p) [0..<r])) \<Longrightarrow>
   a = PolyEvalCall x2p \<and> p \<noteq> 2 \<and> p \<noteq> 3 \<and> 2 \<le> r"
proof -
  assume "a \<in> set (concat (map (evals p x2p) [0..<r]))"
  then obtain i where i: "i < r" "a \<in> set (evals p x2p i)" by auto
  then have "a = PolyEvalCall x2p \<and> p \<noteq> 2 \<and> p \<noteq> 3 \<and> 0 < i"
    by (cases "p = 2 \<or> p = 3"; cases i) (auto simp add: evals_def)
  then show ?thesis using i(1) by auto
qed

lemma extractDigits_calls:
  assumes "extractDigits ops digits0 spare (Outside c) r shortCut = Some (Inr s)"
  shows "\<exists>x2p. build_x2p (getP ops c) (clamp_r ops c r) = Some (Inr x2p)
           \<and> calls s = (if getP ops c > 3 then [BuildCall (getP ops c) (clamp_r ops c r)] else [])
                        @ concat (map (evals (getP ops c) x2p) [0..<nat (clamp_r ops c r)])"
proof -
  obtain x2p where b: "build_x2p (getP ops c) (clamp_r ops c r) = Some (Inr x2p)"
    using build_x2p_returns by blast
  have r0: "0 \<le> clamp_r ops c r"
    using assms b by (auto simp add: extractDigits_def entry_value_def Let_def split: if_splits)
  have "calls s = calls (outer_loop ops (getP ops c) x2p shortCut (nat (clamp_r ops c r)) (init_state ops digits0 c r))"
    using assms extractDigits_unfold[OF b r0, of digits0 spare] by (cases shortCut) auto
  also have "\<dots> = calls (init_state ops digits0 c r)
      @ concat (map (evals (getP ops c) x2p) [0..<nat (clamp_r ops c r)])"
    by (simp add: outer_loop_calls)
  finally show ?thesis using b by (simp add: init_state_def)
qed

text \<open>
  Claim C6, as the code has it.  In a call that returns, \<open>buildDigitPolynomial\<close> is invoked
  exactly when \<open>p > 3\<close>, with the clamped digit count as its precision, whatever that
  count is; for \<open>p = 2\<close> and \<open>p = 3\<close> neither it nor \<open>polyEval\<close> is called; and when \<open>p\<close> is
  at least two, every polynomial handed to \<open>polyEval\<close> is the one that
  \<open>buildDigitPolynomial\<close> has built with \<open>p > 3\<close> and \<open>e > 1\<close>, of degree \<open>p\<close>.
\<close>

theorem extractDigits_polynomial_use:
  assumes "extractDigits ops digits0 spare (Outside c) r shortCut = Some (Inr s)"
  shows "(\<forall>p' e'. BuildCall p' e' \<in> set (calls s) \<longleftrightarrow>
            (p' = getP ops c \<and> e' = clamp_r ops c r \<and> 3 < getP ops c))
       \<and> (getP ops c = 2 \<or> getP ops c = 3 \<longrightarrow> calls s = [])
       \<and> (2 \<le> getP ops c \<longrightarrow>
            (\<forall>f. PolyEvalCall f \<in> set (calls s) \<longrightarrow>
               3 < getP ops c \<and> 1 < clamp_r ops c r
             \<and> buildDigitPolynomial [] (getP ops c) (clamp_r ops c r) = Some (Inr f)
             \<and> deg f = getP ops c))"
proof -
  let ?p = "getP ops c" and ?r = "clamp_r ops c r"
  obtain x2p where b: "build_x2p ?p ?r = Some (Inr x2p)"
    and cs: "calls s = (if ?p > 3 then [BuildCall ?p ?r] else []) @ concat (map (evals ?p x2p) [0..<nat ?r])"
    using extractDigits_calls[OF assms] by blast
  have A: "BuildCall p' e' \<in> set (calls s) \<longleftrightarrow> (p' = ?p \<and> e' = ?r \<and> 3 < ?p)" for p' e'
    using cs in_evals[of "BuildCall p' e'" ?p x2p "nat ?r"] by auto
  have B: "calls s = []" if "?p = 2 \<or> ?p = 3"
    using cs that by (auto simp add: evals_def)
  have C: "3 < ?p \<and> 1 < ?r \<and> buildDigitPolynomial [] ?p ?r = Some (Inr f) \<and> deg f = ?p"
    if "2 \<le> ?p" and "PolyEvalCall f \<in> set (calls s)" for f
  proof -
    note p2 = that(1)
    have "PolyEvalCall f \<in> set (concat (map (evals ?p x2p) [0..<nat ?r]))"
      using cs that(2) by (auto split: if_splits)
    from in_evals[OF this] have f: "f = x2p" "?p \<noteq> 2" "?p \<noteq> 3" "2 \<le> nat ?r" by simp_all
    then have p3: "3 < ?p" and r1: "1 < ?r" using that(1) by linarith+
    have built: "buildDigitPolynomial [] ?p ?r = Some (Inr f)"
      using b p3 f(1) by (simp add: build_x2p_def)
    obtain x y where xy: "length x = nat ?p"
      "buildDigitPolynomial [] ?p ?r = Some (Inr (SetCoeff (interpolateMod x y ?p ?r) ?p))"
      using buildDigitPolynomial_built[OF p2 r1, of "[]"] by blast
    have "length (interpolateMod x y ?p ?r) \<le> nat ?p"
      using length_interpolateMod[of x y ?p ?r] xy(1) by simp
    then have "deg (SetCoeff (interpolateMod x y ?p ?r) ?p) = ?p"
      using deg_SetCoeff[of "interpolateMod x y ?p ?r" "nat ?p"] p2 by simp
    then show ?thesis using built xy(2) p3 r1 by simp
  qed
  show ?thesis using A B C by blast
qed


theorem extractDigits_polynomial_use_witness:
  "extractDigits (sim_ops 5) [] 0 (Outside (encrypt 5 2 8)) 0 True =
       Some (Inr \<lparr>c_at = Outside \<lparr>slot = 8, ptxtExp = 2\<rparr>,
                   digits = [\<lparr>slot = 8, ptxtExp = 2\<rparr>, \<lparr>slot = 2, ptxtExp = 1\<rparr>],
                   w = [\<lparr>slot = 23, ptxtExp = 2\<rparr>, \<lparr>slot = 2, ptxtExp = 1\<rparr>],
                   tmp = \<lparr>slot = 2, ptxtExp = 1\<rparr>,
                   calls = [BuildCall 5 2, PolyEvalCall [0, 5, 0, 20, 0, 1]]\<rparr>)
   \<and> 2 \<le> getP (sim_ops 5) (encrypt 5 2 8)
   \<and> PolyEvalCall [0, 5, 0, 20, 0, 1] \<in> set [BuildCall 5 2, PolyEvalCall [0, 5, 0, 20, 0, 1]]
   \<and> 3 < getP (sim_ops 5) (encrypt 5 2 8) \<and> 1 < clamp_r (sim_ops 5) (encrypt 5 2 8) 0
   \<and> buildDigitPolynomial [] (getP (sim_ops 5) (encrypt 5 2 8)) (clamp_r (sim_ops 5) (encrypt 5 2 8) 0)
        = Some (Inr [0, 5, 0, 20, 0, 1])
   \<and> deg [0, 5, 0, 20, 0, 1] = getP (sim_ops 5) (encrypt 5 2 8)"
proof -
  have t: "extractDigits (sim_ops 5) [] 0 (Outside (encrypt 5 2 8)) 0 True =
       Some (Inr \<lparr>c_at = Outside \<lparr>slot = 8, ptxtExp = 2\<rparr>,
                   digits = [\<lparr>slot = 8, ptxtExp = 2\<rparr>, \<lparr>slot = 2, ptxtExp = 1\<rparr>],
                   w = [\<lparr>slot = 23, ptxtExp = 2\<rparr>, \<lparr>slot = 2, ptxtExp = 1\<rparr>],
                   tmp = \<lparr>slot = 2, ptxtExp = 1\<rparr>,
                   calls = [BuildCall 5 2, PolyEvalCall [0, 5, 0, 20, 0, 1]]\<rparr>)" by code_simp
  have g: "2 \<le> getP (sim_ops 5) (encrypt 5 2 8)" by (simp add: sim_ops_def)
  have m: "PolyEvalCall [0, 5, 0, 20, 0, 1] \<in> set [BuildCall 5 2, PolyEvalCall [0, 5, 0, 20, 0, 1]]"
    by simp
  from extractDigits_polynomial_use[OF t] g m
  have "3 < getP (sim_ops 5) (encrypt 5 2 8) \<and> 1 < clamp_r (sim_ops 5) (encrypt 5 2 8) 0
   \<and> buildDigitPolynomial [] (getP (sim_ops 5) (encrypt 5 2 8)) (clamp_r (sim_ops 5) (encrypt 5 2 8) 0)
        = Some (Inr [0, 5, 0, 20, 0, 1])
   \<and> deg [0, 5, 0, 20, 0, 1] = getP (sim_ops 5) (encrypt 5 2 8)"
    by simp
  then show ?thesis using t g m by blast
qed

text \<open>
  With \<open>p = 5\<close> and a single digit the builder is called with \<open>e = 1\<close>: line 43 tests
  \<open>p\<close> only, and the test on \<open>e\<close> is the builder's own (line 78).
\<close>

theorem extractDigits_builds_for_one_digit:
  "extractDigits (sim_ops 5) [] 0 (Outside (encrypt 5 1 3)) 0 True =
       Some (Inr \<lparr>c_at = Outside \<lparr>slot = 3, ptxtExp = 1\<rparr>, digits = [\<lparr>slot = 3, ptxtExp = 1\<rparr>],
                   w = [\<lparr>slot = 3, ptxtExp = 1\<rparr>], tmp = \<lparr>slot = 3, ptxtExp = 1\<rparr>,
                   calls = [BuildCall 5 1]\<rparr>)
   \<and> BuildCall 5 1 \<in> set [BuildCall 5 1] \<and> \<not> ((5::int) > 3 \<and> (1::int) > 1)"
  by code_simp

subsection \<open>Plaintext moduli in the simulation\<close>

lemma sim_ops_simps [simp]:
  "effectiveR (sim_ops p) a = int (ptxtExp a)"
  "getP (sim_ops p) a = p"
  "newCtxt (sim_ops p) a = \<lparr>slot = 0, ptxtExp = ptxtExp a\<rparr>"
  "square (sim_ops p) a = a\<lparr>slot := (slot a * slot a) mod ptxtSpace p a\<rparr>"
  "cube (sim_ops p) a = a\<lparr>slot := (slot a * slot a * slot a) mod ptxtSpace p a\<rparr>"
  "polyEval (sim_ops p) f a = a\<lparr>slot := eval f (slot a) mod ptxtSpace p a\<rparr>"
  "minusEq (sim_ops p) a b = a\<lparr>slot := (slot a - slot b) mod ptxtSpace p a\<rparr>"
  "divideByP (sim_ops p) a = \<lparr>slot = (slot a div p) mod p ^ (ptxtExp a - 1), ptxtExp = ptxtExp a - 1\<rparr>"
  by (simp_all add: sim_ops_def)

lemma ptxtExp_pth_power [simp]: "ptxtExp (pth_power (sim_ops p) p' x2p a) = ptxtExp a"
  by (simp add: pth_power_def)

lemma ptxtExp_peeled [simp]: "ptxtExp (peeled (sim_ops p) p' x2p ws t j) = ptxtExp t - j"
  by (induction j) simp_all

lemma sim_outer_loop_ptxtExp:
  assumes "k \<le> length (w s)" and "length (digits s) = length (w s)" and "j < k"
    and "c_at s = Outside v"
  shows "ptxtExp (w (outer_loop (sim_ops p) p' x2p sc k s) ! j) = ptxtExp v - j
       \<and> (sc \<longrightarrow> ptxtExp (digits (outer_loop (sim_ops p) p' x2p sc k s) ! j) = ptxtExp v - j)"
  using assms
proof (induction k)
  case 0
  then show ?case by simp
next
  case (Suc k)
  let ?s = "outer_loop (sim_ops p) p' x2p sc k s"
  have k: "k < length (w ?s)" "k < length (digits ?s)" and j: "j < length (w ?s)"
    using Suc.prems by simp_all
  note F = outer_body_fields[OF k(1), of "sim_ops p" p' x2p sc]
  have cv: "c_val ?s = v" using Suc.prems(4) by (simp add: c_val_def)
  show ?case
  proof (cases "j = k")
    case True
    have "w (outer_loop (sim_ops p) p' x2p sc (Suc k) s) ! j = peeled (sim_ops p) p' x2p (w ?s) v k"
      using F(1) True k cv by simp
    moreover have "sc \<Longrightarrow> digits (outer_loop (sim_ops p) p' x2p sc (Suc k) s) ! j
        = peeled (sim_ops p) p' x2p (w ?s) v k"
      using F(4) True k cv by simp
    ultimately show ?thesis using True by auto
  next
    case False
    then have jk: "j < k" using Suc.prems by simp
    have "w (outer_loop (sim_ops p) p' x2p sc (Suc k) s) ! j = pth_power (sim_ops p) p' x2p (w ?s ! j)"
      using F(1) False jk j by (simp add: powered_nth)
    moreover have "digits (outer_loop (sim_ops p) p' x2p sc (Suc k) s) ! j = digits ?s ! j"
      using F(4) False by simp
    ultimately show ?thesis using Suc.IH Suc.prems jk by auto
  qed
qed

section \<open>Digit extraction on the simulated ciphertext\<close>

subsection \<open>Digit expansions\<close>

lemma drep_cong: "p dvd (z - drep p z)"
proof -
  have "(z + p div 2) mod p - p div 2 - z = (z + p div 2) mod p - (z + p div 2)" by simp
  moreover have "p dvd ((z + p div 2) mod p - (z + p div 2))" by (simp add: mod_eq_dvd_iff[symmetric])
  ultimately have "p dvd ((z + p div 2) mod p - p div 2 - z)" by (simp only:)
  then have 1: "p dvd (z - ((z + p div 2) mod p - p div 2))" by (simp only: dvd_diff_commute)
  have "2 dvd (z mod 2 - z)" by (simp add: mod_eq_dvd_iff[symmetric])
  then have 2: "2 dvd (z - z mod 2)" by (simp only: dvd_diff_commute)
  show ?thesis using 1 2 by (simp add: drep_def)
qed

lemma drep_range:
  assumes "2 \<le> p"
  shows "if p = 2 then drep p z \<in> {0, 1} else - (p div 2) \<le> drep p z \<and> drep p z < p - p div 2"
proof (cases "p = 2")
  case True
  then show ?thesis by (auto simp add: drep_def)
next
  case False
  have "0 \<le> (z + p div 2) mod p" "(z + p div 2) mod p < p" using assms by simp_all
  then show ?thesis using False by (simp add: drep_def)
qed

lemma drep_cube: "p = 3 \<Longrightarrow> drep p z * drep p z * drep p z = drep p z"
proof -
  assume p: "p = 3"
  have "- 1 \<le> drep p z \<and> drep p z < 2" using drep_range[of p z] p by simp
  then have "drep p z = - 1 \<or> drep p z = 0 \<or> drep p z = 1" by linarith
  then show ?thesis by auto
qed

lemma drep_square: "p = 2 \<Longrightarrow> drep p z * drep p z = drep p z"
  using drep_range[of p z] by auto

lemma dtail_step: "p * dtail p z (Suc j) = dtail p z j - bdigit p z j"
  using drep_cong[of p "dtail p z j"] by (simp add: bdigit_def)

lemma bdigit_expansion: "z = (\<Sum>j<k. bdigit p z j * p ^ j) + p ^ k * dtail p z k"
proof (induction k)
  case 0
  show ?case by simp
next
  case (Suc k)
  have "p ^ Suc k * dtail p z (Suc k) = p ^ k * (p * dtail p z (Suc k))" by simp
  also have "\<dots> = p ^ k * dtail p z k - bdigit p z k * p ^ k"
    by (simp only: dtail_step) (simp add: algebra_simps)
  finally show ?case using Suc by simp
qed

lemma dtail_two: "dtail 2 z j = z div 2 ^ j"
proof (induction j)
  case 0
  show ?case by simp
next
  case (Suc j)
  have "(z div 2 ^ j - (z div 2 ^ j) mod 2) div 2 = (z div 2 ^ j) div 2"
    by (simp add: minus_mod_eq_mult_div)
  also have "\<dots> = z div (2 ^ j * 2)" by (simp add: zdiv_zmult2_eq)
  finally show ?case using Suc by (simp add: drep_def mult.commute)
qed

lemma bdigit_two: "bdigit 2 z j = base_digit 2 z j"
  by (simp add: bdigit_def dtail_two drep_def base_digit_def)

lemma div_lift:
  fixes p :: int
  assumes "0 < p" and "p ^ Suc s dvd (u - p * y)"
  shows "p ^ s dvd (u div p - y)"
proof -
  obtain q where q: "u - p * y = p ^ Suc s * q" using assms(2) by (auto simp add: dvd_def)
  then have "u = p * (y + p ^ s * q)" by (simp add: algebra_simps)
  then have "u div p = y + p ^ s * q" using assms(1) by simp
  then show ?thesis by simp
qed

subsection \<open>The peeling invariant\<close>

lemma mod_power_cong:
  fixes p :: int
  assumes "s \<le> m"
  shows "p ^ s dvd (x mod p ^ m - x)"
proof -
  have "p ^ m dvd (x mod p ^ m - x)" by (simp add: mod_eq_dvd_iff[symmetric])
  moreover have "p ^ s dvd p ^ m" using assms by (rule le_imp_power_dvd)
  ultimately show ?thesis by (rule_tac dvd_trans)
qed

lemma slot_pth_power:
  "slot (pth_power (sim_ops p) p x2p a)
     = (if p = 2 then slot a * slot a else if p = 3 then slot a * slot a * slot a
        else eval x2p (slot a)) mod p ^ ptxtExp a"
  by (simp add: pth_power_def ptxtSpace_def)

text \<open>
  One application of the \<open>p\<close>-th-power operation gains one digit of precision: a slot that
  holds a digit representative modulo \<open>p^t\<close> holds it modulo \<open>p^(t+1)\<close> afterwards.
\<close>

lemma sim_pth_power_lifts:
  assumes "is_prime p" and "build_x2p p r = Some (Inr x2p)"
    and "1 \<le> t" and "Suc t \<le> ptxtExp a" and "3 < p \<Longrightarrow> int (Suc t) \<le> r"
    and "p ^ t dvd (slot a - drep p d)"
  shows "p ^ Suc t dvd (slot (pth_power (sim_ops p) p x2p a) - drep p d)"
proof -
  define v where "v = slot a"
  define X where "X = (if p = 2 then v * v else if p = 3 then v * v * v else eval x2p v)"
  have p2: "2 \<le> p" using assms(1) by (simp add: is_prime_def)
  have "p ^ Suc t dvd (X - drep p d)"
  proof -
    consider "p = 2" | "p = 3" | "3 < p" using p2 by linarith
    then show ?thesis
    proof cases
      case 1
      have "int 2 ^ Suc t dvd (v ^ 2 - drep p d ^ 2)"
        using power_lift[of 2 t v "drep p d"] assms(3,6) 1 by (simp add: v_def)
      moreover have "v ^ 2 - drep p d ^ 2 = X - drep p d"
        using drep_square[OF 1, of d] 1 by (simp add: X_def power2_eq_square)
      ultimately show ?thesis using 1 by simp
    next
      case 2
      have "int 3 ^ Suc t dvd (v ^ 3 - drep p d ^ 3)"
        using power_lift[of 3 t v "drep p d"] assms(3,6) 2 by (simp add: v_def)
      moreover have "v ^ 3 - drep p d ^ 3 = X - drep p d"
        using drep_cube[OF 2, of d] 2 by (simp add: X_def power3_eq_cube)
      ultimately show ?thesis using 2 by simp
    next
      case 3
      have b: "buildDigitPolynomial [] p r = Some (Inr x2p)"
        using assms(2) 3 by (simp add: build_x2p_def)
      have r: "1 < r" "int t < r" using assms(3) assms(5)[OF 3] by linarith+
      have rng: "- (p div 2) \<le> drep p d" "drep p d < p - p div 2"
        using drep_range[OF p2, of d] 3 by simp_all
      have "p ^ Suc t dvd (eval x2p v - drep p d)"
        using buildDigitPolynomial_lifts[OF assms(1) r(1) b rng assms(3) r(2)] assms(6)
        by (simp add: v_def)
      then show ?thesis using 3 by (simp add: X_def)
    qed
  qed
  moreover have "p ^ Suc t dvd (X mod p ^ ptxtExp a - X)" using assms(4) by (rule mod_power_cong)
  ultimately have "p ^ Suc t dvd (X mod p ^ ptxtExp a - X) + (X - drep p d)" by (rule_tac dvd_add)
  moreover have "slot (pth_power (sim_ops p) p x2p a) = X mod p ^ ptxtExp a"
    by (simp add: slot_pth_power X_def v_def)
  ultimately show ?thesis by simp
qed

text \<open>The inner loop: after \<open>j'\<close> peeling steps of round \<open>k\<close>, \<open>tmp\<close> holds the tail \<open>j'\<close>.\<close>

lemma sim_peeled:
  assumes "is_prime p" and "build_x2p p r = Some (Inr x2p)"
    and "Suc k \<le> ptxtExp c" and "3 < p \<Longrightarrow> int (Suc k) \<le> r"
    and "\<forall>j<k. ptxtExp (ws ! j) = ptxtExp c - j \<and> p ^ (k - j) dvd (slot (ws ! j) - bdigit p (slot c) j)"
    and "j' \<le> k"
  shows "p ^ (Suc k - j') dvd (slot (peeled (sim_ops p) p x2p ws c j') - dtail p (slot c) j')"
  using assms(6)
proof (induction j')
  case 0
  show ?case by simp
next
  case (Suc j')
  let ?z = "slot c"
  let ?T = "peeled (sim_ops p) p x2p ws c j'"
  let ?P = "pth_power (sim_ops p) p x2p (ws ! j')"
  have p0: "0 < p" using assms(1) by (simp add: is_prime_def)
  have jk: "j' < k" using Suc.prems by simp
  define s where "s = k - j'"
  have s: "Suc k - j' = Suc s" "Suc k - Suc j' = s" "1 \<le> s" using jk by (simp_all add: s_def)
  have wj: "ptxtExp (ws ! j') = ptxtExp c - j'" "p ^ s dvd (slot (ws ! j') - drep p (dtail p ?z j'))"
    using assms(5) jk by (simp_all add: s_def bdigit_def)
  have IH: "p ^ Suc s dvd (slot ?T - dtail p ?z j')" using Suc.IH jk s(1) by simp
  have "Suc s \<le> ptxtExp (ws ! j')" using wj(1) assms(3) jk by (simp add: s_def)
  moreover have "3 < p \<Longrightarrow> int (Suc s) \<le> r" using assms(4) by (simp add: s_def)
  ultimately have P: "p ^ Suc s dvd (slot ?P - drep p (dtail p ?z j'))"
    using sim_pth_power_lifts[OF assms(1,2) s(3) _ _ wj(2)] by blast
  define u where "u = (slot ?T - slot ?P) mod p ^ (ptxtExp c - j')"
  have "Suc s \<le> ptxtExp c - j'" using assms(3) jk by (simp add: s_def)
  then have "p ^ Suc s dvd (u - (slot ?T - slot ?P))" unfolding u_def by (rule mod_power_cong)
  moreover have "u - p * dtail p ?z (Suc j')
      = (u - (slot ?T - slot ?P)) + (slot ?T - dtail p ?z j') - (slot ?P - drep p (dtail p ?z j'))"
    using dtail_step[of p ?z j'] by (simp add: bdigit_def)
  ultimately have "p ^ Suc s dvd (u - p * dtail p ?z (Suc j'))"
    using IH P by (simp only: dvd_add dvd_diff)
  then have d: "p ^ s dvd (u div p - dtail p ?z (Suc j'))" using p0 by (rule_tac div_lift)
  have "s \<le> ptxtExp c - j' - 1" using assms(3) jk by (simp add: s_def)
  then have "p ^ s dvd ((u div p) mod p ^ (ptxtExp c - j' - 1) - u div p)" by (rule mod_power_cong)
  then have "p ^ s dvd ((u div p) mod p ^ (ptxtExp c - j' - 1) - u div p) + (u div p - dtail p ?z (Suc j'))"
    using d by (rule dvd_add)
  moreover have "slot (peeled (sim_ops p) p x2p ws c (Suc j')) = (u div p) mod p ^ (ptxtExp c - j' - 1)"
    by (simp add: u_def ptxtSpace_def)
  ultimately show ?case using s(2) by simp
qed

lemma sim_outer_loop_digits:
  assumes "is_prime p" and "build_x2p p r = Some (Inr x2p)"
    and "k \<le> length (w s)" and "length (digits s) = length (w s)"
    and "k \<le> ptxtExp v" and "3 < p \<Longrightarrow> int k \<le> r" and "j < k"
    and "c_at s = Outside v"
  shows "p ^ (k - j) dvd (slot (w (outer_loop (sim_ops p) p x2p sc k s) ! j) - bdigit p (slot v) j)
       \<and> (sc \<longrightarrow> p dvd (slot (digits (outer_loop (sim_ops p) p x2p sc k s) ! j) - bdigit p (slot v) j))"
  using assms(3,5,6,7)
proof (induction k arbitrary: j)
  case 0
  then show ?case by simp
next
  case (Suc k)
  let ?s = "outer_loop (sim_ops p) p x2p sc k s"
  let ?z = "slot v"
  let ?T = "peeled (sim_ops p) p x2p (w ?s) v k"
  have k: "k < length (w ?s)" "k < length (digits ?s)" and j: "j < length (w ?s)"
    using Suc.prems assms(4) by simp_all
  note F = outer_body_fields[OF k(1), of "sim_ops p" p x2p sc]
  have cv: "c_val ?s = v" using assms(8) by (simp add: c_val_def)
  have r: "3 < p \<Longrightarrow> int k \<le> r" using Suc.prems(3) by simp
  have inv: "\<forall>i<k. ptxtExp (w ?s ! i) = ptxtExp v - i
      \<and> p ^ (k - i) dvd (slot (w ?s ! i) - bdigit p (slot v) i)"
  proof (intro allI impI)
    fix i assume i: "i < k"
    have "ptxtExp (w ?s ! i) = ptxtExp v - i"
      using sim_outer_loop_ptxtExp[of k s i v p p x2p sc] Suc.prems(1) assms(4,8) i by simp
    moreover have "p ^ (k - i) dvd (slot (w ?s ! i) - bdigit p ?z i)"
      using Suc.IH[OF _ _ r i] Suc.prems by simp
    ultimately show "ptxtExp (w ?s ! i) = ptxtExp v - i
      \<and> p ^ (k - i) dvd (slot (w ?s ! i) - bdigit p (slot v) i)" by simp
  qed
  show ?case
  proof (cases "j = k")
    case True
    have "p ^ (Suc k - k) dvd (slot ?T - dtail p (slot v) k)"
      using sim_peeled[OF assms(1,2) _ _ inv le_refl] Suc.prems(2,3) by simp
    then have "p dvd (slot ?T - dtail p ?z k)" by simp
    moreover have "p dvd (dtail p ?z k - bdigit p ?z k)" unfolding bdigit_def by (rule drep_cong)
    ultimately have "p dvd (slot ?T - dtail p ?z k) + (dtail p ?z k - bdigit p ?z k)" by (rule dvd_add)
    then have T: "p dvd (slot ?T - bdigit p ?z k)" by simp
    have "w (outer_loop (sim_ops p) p x2p sc (Suc k) s) ! j = ?T"
      using F(1) True k cv by simp
    moreover have "sc \<Longrightarrow> digits (outer_loop (sim_ops p) p x2p sc (Suc k) s) ! j = ?T"
      using F(4) True k cv by simp
    ultimately show ?thesis using True T by auto
  next
    case False
    then have jk: "j < k" using Suc.prems by simp
    have IH: "p ^ (k - j) dvd (slot (w ?s ! j) - bdigit p ?z j)"
      "sc \<Longrightarrow> p dvd (slot (digits ?s ! j) - bdigit p ?z j)"
      using Suc.IH[OF _ _ r jk] Suc.prems by simp_all
    have e: "ptxtExp (w ?s ! j) = ptxtExp v - j"
      using sim_outer_loop_ptxtExp[of k s j v p p x2p sc] Suc.prems(1) assms(4,8) jk by simp
    have "1 \<le> k - j" "Suc (k - j) \<le> ptxtExp (w ?s ! j)" "3 < p \<Longrightarrow> int (Suc (k - j)) \<le> r"
      using jk e Suc.prems(2,3) by simp_all
    then have "p ^ Suc (k - j) dvd (slot (pth_power (sim_ops p) p x2p (w ?s ! j)) - bdigit p ?z j)"
      using sim_pth_power_lifts[OF assms(1,2), of "k - j" "w ?s ! j"] IH(1) by (simp add: bdigit_def)
    moreover have "Suc (k - j) = Suc k - j" using jk by simp
    moreover have "w (outer_loop (sim_ops p) p x2p sc (Suc k) s) ! j = pth_power (sim_ops p) p x2p (w ?s ! j)"
      using F(1) False jk j by (simp add: powered_nth)
    moreover have "digits (outer_loop (sim_ops p) p x2p sc (Suc k) s) ! j = digits ?s ! j"
      using F(4) False by simp
    ultimately show ?thesis using IH(2) by auto
  qed
qed

subsection \<open>The extracted digits\<close>

text \<open>Both modes on a simulated ciphertext, digit by digit.\<close>

lemma sim_extractDigits:
  assumes "is_prime p"
  shows "\<exists>sT sF. extractDigits (sim_ops p) digits0 spare (Outside c) r True = Some (Inr sT)
           \<and> extractDigits (sim_ops p) digits0 spare (Outside c) r False = Some (Inr sF)
           \<and> length (digits sT) = nat (clamp_r (sim_ops p) c r)
           \<and> length (digits sF) = nat (clamp_r (sim_ops p) c r)
           \<and> (\<forall>j < nat (clamp_r (sim_ops p) c r).
                 p dvd (slot (digits sT ! j) - bdigit p (slot c) j)
               \<and> p ^ (nat (clamp_r (sim_ops p) c r) - j) dvd (slot (digits sF ! j) - bdigit p (slot c) j))"
proof -
  let ?ops = "sim_ops p" and ?n = "nat (clamp_r (sim_ops p) c r)"
  let ?s0 = "init_state ?ops digits0 c r"
  obtain x2p where b: "build_x2p p (clamp_r ?ops c r) = Some (Inr x2p)"
    using build_x2p_returns by blast
  have r0: "0 \<le> clamp_r ?ops c r" and rR: "?n \<le> ptxtExp c"
    by (auto simp add: clamp_r_def Let_def)
  let ?sT = "outer_loop ?ops p x2p True ?n ?s0"
  let ?sF = "copy_loop ?n (outer_loop ?ops p x2p False ?n ?s0)"
  have ret: "extractDigits ?ops digits0 spare (Outside c) r True = Some (Inr ?sT)"
    "extractDigits ?ops digits0 spare (Outside c) r False = Some (Inr ?sF)"
    using extractDigits_unfold[OF _ r0, of x2p digits0 spare] b by simp_all
  have pr: "3 < p \<Longrightarrow> int ?n \<le> clamp_r ?ops c r" using r0 by simp
  have T: "p dvd (slot (digits ?sT ! j) - bdigit p (slot c) j)" if "j < ?n" for j
    using sim_outer_loop_digits[OF assms b, of ?n ?s0 c j True] rR pr that by simp
  have F: "p ^ (?n - j) dvd (slot (digits ?sF ! j) - bdigit p (slot c) j)" if "j < ?n" for j
  proof -
    have "digits ?sF ! j = w (outer_loop ?ops p x2p False ?n ?s0) ! j"
      using that by (simp add: copy_loop_digits_nth)
    then show ?thesis
      using sim_outer_loop_digits[OF assms b, of ?n ?s0 c j False] rR pr that by simp
  qed
  have "length (digits ?sT) = ?n" "length (digits ?sF) = ?n" by simp_all
  then show ?thesis using ret T F by blast
qed

text \<open>
  What the extraction computes.  For a prime \<open>p\<close> and an integer \<open>z\<close> in \<open>[0, p^R)\<close> in the
  slot, the call returns as many ciphertexts as the clamped digit count \<open>r\<close>, and output
  \<open>j\<close> is congruent to \<open>bdigit p z j\<close>, modulo \<open>p^(r - j)\<close> without \<open>shortCut\<close> and modulo
  \<open>p\<close> with it, where \<open>z = \<Sum> bdigit p z j * p^j\<close>.  These are the ordinary binary digits for
  \<open>p = 2\<close> and digits in \<open>[- \<lfloor>p/2\<rfloor>, p - \<lfloor>p/2\<rfloor>)\<close> for an odd \<open>p\<close>.
\<close>

lemma extractDigits_bdigits:
  assumes "is_prime p" and "0 \<le> z" and "z < p ^ R"
  shows "\<exists>s. extractDigits (sim_ops p) digits0 spare (Outside (encrypt p R z)) r shortCut = Some (Inr s)
      \<and> length (digits s) = nat (clamp_r (sim_ops p) (encrypt p R z) r)
      \<and> (\<forall>j < nat (clamp_r (sim_ops p) (encrypt p R z) r).
            p ^ (if shortCut then 1 else nat (clamp_r (sim_ops p) (encrypt p R z) r) - j)
              dvd (decrypt (digits s ! j) - bdigit p z j))
      \<and> (\<forall>k. p ^ k dvd (z - (\<Sum>j<k. bdigit p z j * p ^ j)))
      \<and> (\<forall>j. if p = 2 then bdigit p z j = base_digit p z j
               else - (p div 2) \<le> bdigit p z j \<and> bdigit p z j < p - p div 2)"
proof -
  let ?c = "encrypt p R z" and ?n = "nat (clamp_r (sim_ops p) (encrypt p R z) r)"
  have z: "slot ?c = z" using assms(2,3) by (simp add: encrypt_def)
  have p2: "2 \<le> p" using assms(1) by (simp add: is_prime_def)
  obtain sT sF where run: "extractDigits (sim_ops p) digits0 spare (Outside ?c) r True = Some (Inr sT)"
    "extractDigits (sim_ops p) digits0 spare (Outside ?c) r False = Some (Inr sF)"
    "length (digits sT) = ?n" "length (digits sF) = ?n"
    and dig: "\<And>j. j < ?n \<Longrightarrow> p dvd (slot (digits sT ! j) - bdigit p (slot ?c) j)
               \<and> p ^ (?n - j) dvd (slot (digits sF ! j) - bdigit p (slot ?c) j)"
    using sim_extractDigits[OF assms(1), of digits0 spare ?c r] by blast
  define s where "s = (if shortCut then sT else sF)"
  have 1: "extractDigits (sim_ops p) digits0 spare (Outside ?c) r shortCut = Some (Inr s)"
    using run(1,2) by (simp add: s_def)
  have 2: "length (digits s) = ?n" using run(3,4) by (simp add: s_def)
  have 3: "p ^ (if shortCut then 1 else ?n - j) dvd (decrypt (digits s ! j) - bdigit p z j)"
    if "j < ?n" for j
    using dig[OF that] z by (simp add: s_def decrypt_def)
  have 4: "p ^ k dvd (z - (\<Sum>j<k. bdigit p z j * p ^ j))" for k
  proof -
    have "z - (\<Sum>j<k. bdigit p z j * p ^ j) = p ^ k * dtail p z k"
      using bdigit_expansion[of z p k] by simp
    then show ?thesis by simp
  qed
  have 5: "if p = 2 then bdigit p z j = base_digit p z j
           else - (p div 2) \<le> bdigit p z j \<and> bdigit p z j < p - p div 2" for j
    using drep_range[OF p2, of "dtail p z j"] bdigit_two[of z j] by (auto simp add: bdigit_def)
  show ?thesis using 1 2 3 4 5 by blast
qed

text \<open>
  Claim C1, at \<open>p = 3\<close> and at \<open>p = 5\<close>.  The base-\<open>3\<close> digits of \<open>z = 2\<close> are \<open>2\<close> and \<open>0\<close>.
  On the ciphertext that holds \<open>2\<close> modulo \<open>9\<close> the call returns two ciphertexts: without
  \<open>shortCut\<close> they hold \<open>8\<close> modulo \<open>9\<close> and \<open>1\<close> modulo \<open>3\<close>, with \<open>shortCut\<close> they hold \<open>2\<close>
  and \<open>1\<close>; the second is not \<open>0\<close> modulo \<open>3\<close> in either mode, and the first is not \<open>2\<close>
  modulo \<open>9\<close> without \<open>shortCut\<close>.  The base-\<open>5\<close> digits of \<open>z = 8\<close> are \<open>3\<close> and \<open>1\<close>; on the
  ciphertext that holds \<open>8\<close> modulo \<open>25\<close> the call returns \<open>23\<close> modulo \<open>25\<close> and \<open>2\<close> modulo
  \<open>5\<close> without \<open>shortCut\<close>, and \<open>8\<close> and \<open>2\<close> with it.
\<close>

theorem extractDigits_not_plain_digits:
  "(0::int) \<le> 2 \<and> (2::int) < 3 ^ 2
   \<and> base_digit 3 2 0 = 2 \<and> base_digit 3 2 1 = 0
   \<and> extractDigits (sim_ops 3) [] 0 (Outside (encrypt 3 2 2)) 0 False =
       Some (Inr \<lparr>c_at = Outside \<lparr>slot = 2, ptxtExp = 2\<rparr>,
                   digits = [\<lparr>slot = 8, ptxtExp = 2\<rparr>, \<lparr>slot = 1, ptxtExp = 1\<rparr>],
                   w = [\<lparr>slot = 8, ptxtExp = 2\<rparr>, \<lparr>slot = 1, ptxtExp = 1\<rparr>],
                   tmp = \<lparr>slot = 1, ptxtExp = 1\<rparr>, calls = []\<rparr>)
   \<and> \<not> (3::int) ^ (2 - 1) dvd (decrypt ([\<lparr>slot = 8, ptxtExp = 2\<rparr>, \<lparr>slot = 1, ptxtExp = 1\<rparr>] ! 1) - base_digit 3 2 1)
   \<and> \<not> (3::int) ^ (2 - 0) dvd (decrypt ([\<lparr>slot = 8, ptxtExp = 2\<rparr>, \<lparr>slot = 1, ptxtExp = 1\<rparr>] ! 0) - base_digit 3 2 0)
   \<and> extractDigits (sim_ops 3) [] 0 (Outside (encrypt 3 2 2)) 0 True =
       Some (Inr \<lparr>c_at = Outside \<lparr>slot = 2, ptxtExp = 2\<rparr>,
                   digits = [\<lparr>slot = 2, ptxtExp = 2\<rparr>, \<lparr>slot = 1, ptxtExp = 1\<rparr>],
                   w = [\<lparr>slot = 8, ptxtExp = 2\<rparr>, \<lparr>slot = 1, ptxtExp = 1\<rparr>],
                   tmp = \<lparr>slot = 1, ptxtExp = 1\<rparr>, calls = []\<rparr>)
   \<and> \<not> (3::int) dvd (decrypt ([\<lparr>slot = 2, ptxtExp = 2\<rparr>, \<lparr>slot = 1, ptxtExp = 1\<rparr>] ! 1) - base_digit 3 2 1)
   \<and> (0::int) \<le> 8 \<and> (8::int) < 5 ^ 2
   \<and> base_digit 5 8 0 = 3 \<and> base_digit 5 8 1 = 1
   \<and> extractDigits (sim_ops 5) [] 0 (Outside (encrypt 5 2 8)) 0 False =
       Some (Inr \<lparr>c_at = Outside \<lparr>slot = 8, ptxtExp = 2\<rparr>,
                   digits = [\<lparr>slot = 23, ptxtExp = 2\<rparr>, \<lparr>slot = 2, ptxtExp = 1\<rparr>],
                   w = [\<lparr>slot = 23, ptxtExp = 2\<rparr>, \<lparr>slot = 2, ptxtExp = 1\<rparr>],
                   tmp = \<lparr>slot = 2, ptxtExp = 1\<rparr>,
                   calls = [BuildCall 5 2, PolyEvalCall [0, 5, 0, 20, 0, 1]]\<rparr>)
   \<and> \<not> (5::int) ^ (2 - 1) dvd (decrypt ([\<lparr>slot = 23, ptxtExp = 2\<rparr>, \<lparr>slot = 2, ptxtExp = 1\<rparr>] ! 1) - base_digit 5 8 1)
   \<and> \<not> (5::int) ^ (2 - 0) dvd (decrypt ([\<lparr>slot = 23, ptxtExp = 2\<rparr>, \<lparr>slot = 2, ptxtExp = 1\<rparr>] ! 0) - base_digit 5 8 0)
   \<and> extractDigits (sim_ops 5) [] 0 (Outside (encrypt 5 2 8)) 0 True =
       Some (Inr \<lparr>c_at = Outside \<lparr>slot = 8, ptxtExp = 2\<rparr>,
                   digits = [\<lparr>slot = 8, ptxtExp = 2\<rparr>, \<lparr>slot = 2, ptxtExp = 1\<rparr>],
                   w = [\<lparr>slot = 23, ptxtExp = 2\<rparr>, \<lparr>slot = 2, ptxtExp = 1\<rparr>],
                   tmp = \<lparr>slot = 2, ptxtExp = 1\<rparr>,
                   calls = [BuildCall 5 2, PolyEvalCall [0, 5, 0, 20, 0, 1]]\<rparr>)
   \<and> \<not> (5::int) dvd (decrypt ([\<lparr>slot = 8, ptxtExp = 2\<rparr>, \<lparr>slot = 2, ptxtExp = 1\<rparr>] ! 1) - base_digit 5 8 1)"
  by code_simp

text \<open>
  Claim C8.  On the same input and with the same digit count both modes return, and their
  last outputs (index \<open>r - 1\<close>) are one and the same ciphertext, so they decrypt to the same
  integer.  For a prime \<open>p\<close> every earlier pair of outputs holds the same digit: the two
  decryptions agree modulo \<open>p\<close>, and differ only in the precision beyond \<open>p\<close> to which each
  mode carries that digit.
\<close>

theorem extractDigits_top_digit:
  "\<exists>sT sF. extractDigits (sim_ops p) digits0 spare (Outside c) r True = Some (Inr sT)
       \<and> extractDigits (sim_ops p) digits0 spare (Outside c) r False = Some (Inr sF)
       \<and> (1 \<le> clamp_r (sim_ops p) c r \<longrightarrow>
            digits sT ! (nat (clamp_r (sim_ops p) c r) - 1) = digits sF ! (nat (clamp_r (sim_ops p) c r) - 1)
          \<and> decrypt (digits sT ! (nat (clamp_r (sim_ops p) c r) - 1))
              = decrypt (digits sF ! (nat (clamp_r (sim_ops p) c r) - 1)))
       \<and> (is_prime p \<longrightarrow>
            (\<forall>j < nat (clamp_r (sim_ops p) c r).
               p dvd (decrypt (digits sT ! j) - decrypt (digits sF ! j))))"
proof -
  let ?n = "nat (clamp_r (sim_ops p) c r)"
  let ?s0 = "init_state (sim_ops p) digits0 c r"
  obtain x2p where b: "build_x2p (getP (sim_ops p) c) (clamp_r (sim_ops p) c r) = Some (Inr x2p)"
    using build_x2p_returns by blast
  have r0: "0 \<le> clamp_r (sim_ops p) c r" by (simp add: clamp_r_def Let_def)
  define sT where "sT = outer_loop (sim_ops p) (getP (sim_ops p) c) x2p True ?n ?s0"
  define sF where "sF = copy_loop ?n (outer_loop (sim_ops p) (getP (sim_ops p) c) x2p False ?n ?s0)"
  have run: "extractDigits (sim_ops p) digits0 spare (Outside c) r True = Some (Inr sT)"
    "extractDigits (sim_ops p) digits0 spare (Outside c) r False = Some (Inr sF)"
    using extractDigits_unfold[OF b r0, of digits0 spare] by (simp_all add: sT_def sF_def)
  have rel: "digits sF ! j = (pth_power (sim_ops p) (getP (sim_ops p) c) x2p ^^ (?n - 1 - j)) (digits sT ! j)"
    if "j < ?n" for j
    unfolding sT_def sF_def
    using loops_modes_related[of ?n ?s0 j c "sim_ops p" "getP (sim_ops p) c" x2p] that by simp
  have top: "digits sT ! (?n - 1) = digits sF ! (?n - 1)" if "1 \<le> clamp_r (sim_ops p) c r"
  proof -
    have "?n - 1 < ?n" using that by simp
    from rel[OF this] show ?thesis by simp
  qed
  have low: "p dvd (decrypt (digits sT ! j) - decrypt (digits sF ! j))" if "is_prime p" "j < ?n" for j
  proof -
    note pr = that(1) and jn = that(2)
    obtain sT' sF' where run': "extractDigits (sim_ops p) digits0 spare (Outside c) r True = Some (Inr sT')"
      "extractDigits (sim_ops p) digits0 spare (Outside c) r False = Some (Inr sF')"
      and dig: "\<And>j. j < ?n \<Longrightarrow> p dvd (slot (digits sT' ! j) - bdigit p (slot c) j)
               \<and> p ^ (?n - j) dvd (slot (digits sF' ! j) - bdigit p (slot c) j)"
      using sim_extractDigits[OF pr, of digits0 spare c r] by blast
    have eq: "sT' = sT" "sF' = sF" using run run' by simp_all
    have "p dvd p ^ (?n - j)" using jn by (simp add: dvd_power)
    then have "p dvd (slot (digits sF ! j) - bdigit p (slot c) j)"
      using dig[OF jn] eq by (blast intro: dvd_trans)
    moreover have "p dvd (slot (digits sT ! j) - bdigit p (slot c) j)"
      using dig[OF jn] eq by simp
    ultimately have "p dvd (slot (digits sT ! j) - bdigit p (slot c) j)
        - (slot (digits sF ! j) - bdigit p (slot c) j)" by (rule_tac dvd_diff)
    then show ?thesis by (simp add: decrypt_def)
  qed
  show ?thesis using run top low by auto
qed

theorem extractDigits_top_digit_witness:
  "extractDigits (sim_ops 5) [] 0 (Outside (encrypt 5 2 8)) 0 True =
       Some (Inr \<lparr>c_at = Outside \<lparr>slot = 8, ptxtExp = 2\<rparr>,
                   digits = [\<lparr>slot = 8, ptxtExp = 2\<rparr>, \<lparr>slot = 2, ptxtExp = 1\<rparr>],
                   w = [\<lparr>slot = 23, ptxtExp = 2\<rparr>, \<lparr>slot = 2, ptxtExp = 1\<rparr>],
                   tmp = \<lparr>slot = 2, ptxtExp = 1\<rparr>,
                   calls = [BuildCall 5 2, PolyEvalCall [0, 5, 0, 20, 0, 1]]\<rparr>)
   \<and> extractDigits (sim_ops 5) [] 0 (Outside (encrypt 5 2 8)) 0 False =
       Some (Inr \<lparr>c_at = Outside \<lparr>slot = 8, ptxtExp = 2\<rparr>,
                   digits = [\<lparr>slot = 23, ptxtExp = 2\<rparr>, \<lparr>slot = 2, ptxtExp = 1\<rparr>],
                   w = [\<lparr>slot = 23, ptxtExp = 2\<rparr>, \<lparr>slot = 2, ptxtExp = 1\<rparr>],
                   tmp = \<lparr>slot = 2, ptxtExp = 1\<rparr>,
                   calls = [BuildCall 5 2, PolyEvalCall [0, 5, 0, 20, 0, 1]]\<rparr>)
   \<and> 1 \<le> clamp_r (sim_ops 5) (encrypt 5 2 8) 0 \<and> is_prime 5
   \<and> (0::nat) < nat (clamp_r (sim_ops 5) (encrypt 5 2 8) 0)
   \<and> decrypt ([\<lparr>slot = 8, ptxtExp = 2\<rparr>, \<lparr>slot = 2, ptxtExp = 1\<rparr>] ! (nat (clamp_r (sim_ops 5) (encrypt 5 2 8) 0) - 1))
       = decrypt ([\<lparr>slot = 23, ptxtExp = 2\<rparr>, \<lparr>slot = 2, ptxtExp = 1\<rparr>] ! (nat (clamp_r (sim_ops 5) (encrypt 5 2 8) 0) - 1))
   \<and> (5::int) dvd (decrypt ([\<lparr>slot = 8, ptxtExp = 2\<rparr>, \<lparr>slot = 2, ptxtExp = 1\<rparr>] ! 0)
                    - decrypt ([\<lparr>slot = 23, ptxtExp = 2\<rparr>, \<lparr>slot = 2, ptxtExp = 1\<rparr>] ! 0))"
proof -
  have t: "extractDigits (sim_ops 5) [] 0 (Outside (encrypt 5 2 8)) 0 True =
       Some (Inr \<lparr>c_at = Outside \<lparr>slot = 8, ptxtExp = 2\<rparr>,
                   digits = [\<lparr>slot = 8, ptxtExp = 2\<rparr>, \<lparr>slot = 2, ptxtExp = 1\<rparr>],
                   w = [\<lparr>slot = 23, ptxtExp = 2\<rparr>, \<lparr>slot = 2, ptxtExp = 1\<rparr>],
                   tmp = \<lparr>slot = 2, ptxtExp = 1\<rparr>,
                   calls = [BuildCall 5 2, PolyEvalCall [0, 5, 0, 20, 0, 1]]\<rparr>)" by code_simp
  have f: "extractDigits (sim_ops 5) [] 0 (Outside (encrypt 5 2 8)) 0 False =
       Some (Inr \<lparr>c_at = Outside \<lparr>slot = 8, ptxtExp = 2\<rparr>,
                   digits = [\<lparr>slot = 23, ptxtExp = 2\<rparr>, \<lparr>slot = 2, ptxtExp = 1\<rparr>],
                   w = [\<lparr>slot = 23, ptxtExp = 2\<rparr>, \<lparr>slot = 2, ptxtExp = 1\<rparr>],
                   tmp = \<lparr>slot = 2, ptxtExp = 1\<rparr>,
                   calls = [BuildCall 5 2, PolyEvalCall [0, 5, 0, 20, 0, 1]]\<rparr>)" by code_simp
  have h: "1 \<le> clamp_r (sim_ops 5) (encrypt 5 2 8) 0" "is_prime 5"
    "(0::nat) < nat (clamp_r (sim_ops 5) (encrypt 5 2 8) 0)" by code_simp+
  obtain sT sF where s: "extractDigits (sim_ops 5) [] 0 (Outside (encrypt 5 2 8)) 0 True = Some (Inr sT)"
    "extractDigits (sim_ops 5) [] 0 (Outside (encrypt 5 2 8)) 0 False = Some (Inr sF)"
    and a: "1 \<le> clamp_r (sim_ops 5) (encrypt 5 2 8) 0 \<Longrightarrow>
            decrypt (digits sT ! (nat (clamp_r (sim_ops 5) (encrypt 5 2 8) 0) - 1))
              = decrypt (digits sF ! (nat (clamp_r (sim_ops 5) (encrypt 5 2 8) 0) - 1))"
    and b: "\<And>j. is_prime 5 \<Longrightarrow> j < nat (clamp_r (sim_ops 5) (encrypt 5 2 8) 0) \<Longrightarrow>
               5 dvd (decrypt (digits sT ! j) - decrypt (digits sF ! j))"
    using extractDigits_top_digit[of 5 "[]" 0 "encrypt 5 2 8" 0] by blast
  from s t f have eq: "sT = \<lparr>c_at = Outside \<lparr>slot = 8, ptxtExp = 2\<rparr>,
                   digits = [\<lparr>slot = 8, ptxtExp = 2\<rparr>, \<lparr>slot = 2, ptxtExp = 1\<rparr>],
                   w = [\<lparr>slot = 23, ptxtExp = 2\<rparr>, \<lparr>slot = 2, ptxtExp = 1\<rparr>],
                   tmp = \<lparr>slot = 2, ptxtExp = 1\<rparr>,
                   calls = [BuildCall 5 2, PolyEvalCall [0, 5, 0, 20, 0, 1]]\<rparr>"
       "sF = \<lparr>c_at = Outside \<lparr>slot = 8, ptxtExp = 2\<rparr>,
                   digits = [\<lparr>slot = 23, ptxtExp = 2\<rparr>, \<lparr>slot = 2, ptxtExp = 1\<rparr>],
                   w = [\<lparr>slot = 23, ptxtExp = 2\<rparr>, \<lparr>slot = 2, ptxtExp = 1\<rparr>],
                   tmp = \<lparr>slot = 2, ptxtExp = 1\<rparr>,
                   calls = [BuildCall 5 2, PolyEvalCall [0, 5, 0, 20, 0, 1]]\<rparr>" by simp_all
  show ?thesis using a[OF h(1)] b[OF h(2,3)] t f h unfolding eq by simp
qed

end
